theory Spec2Isabelle
  imports
    Main
    "HOL-Library.Word"
    "HOL-Library.Option_ord"
    "HOL-Library.AList"
begin

unbundle bit_operations_syntax

chapter \<open>A Dynamo-style key-value store: model of the Go sources\<close>

section \<open>Vector clocks (backend/vector\_clock.go)\<close>

text \<open>
  \<^verbatim>\<open>type VectorClock struct { Clock map[string]int }\<close>.
  The map is a partial function from node identifiers to counters; a \<^verbatim>\<open>nil\<close> map reads
  like the empty one, and every method that writes allocates a map first, so both are
  \<open>Map.empty\<close>. A \<^verbatim>\<open>*VectorClock\<close> may be \<^verbatim>\<open>nil\<close>: pointers are \<open>VectorClock option\<close>.
  Counters are Go \<^verbatim>\<open>int\<close>s (64 bits, signed); they are only compared and copied, except
  in \<^verbatim>\<open>Increment\<close>, where the wrap-around is written out.
\<close>

record VectorClock =
  Clock :: "string \<rightharpoonup> int"

definition NewVectorClock :: VectorClock where
  "NewVectorClock = \<lparr>Clock = Map.empty\<rparr>"

definition int64_wrap :: "int \<Rightarrow> int" where
  "int64_wrap x = (x + 2 ^ 63) mod 2 ^ 64 - 2 ^ 63"

text \<open>\<^verbatim>\<open>Increment\<close>: a \<^verbatim>\<open>nil\<close> receiver is left alone; a missing entry reads as 0.\<close>

definition Increment :: "VectorClock option \<Rightarrow> string \<Rightarrow> VectorClock option" where
  "Increment vc nodeID =
     (case vc of
        None \<Rightarrow> None
      | Some v \<Rightarrow>
          Some (v\<lparr>Clock := (Clock v)(nodeID \<mapsto>
                  int64_wrap ((case Clock v nodeID of None \<Rightarrow> 0 | Some n \<Rightarrow> n) + 1))\<rparr>))"

text \<open>
  \<^verbatim>\<open>Merge\<close>: the loop visits every entry of \<open>other\<close> once and writes only the entry of the
  same node, so its result is given entry by entry.
\<close>

definition Merge :: "VectorClock option \<Rightarrow> VectorClock option \<Rightarrow> VectorClock option" where
  "Merge vc other =
     (case (vc, other) of
        (Some v, Some ot) \<Rightarrow>
          Some (v\<lparr>Clock := (\<lambda>node.
                  case Clock ot node of
                    None \<Rightarrow> Clock v node
                  | Some count \<Rightarrow>
                      (case Clock v node of
                         None \<Rightarrow> Some count
                       | Some current \<Rightarrow> if current < count then Some count else Some current))\<rparr>)
      | _ \<Rightarrow> vc)"

definition Clone :: "VectorClock option \<Rightarrow> VectorClock" where
  "Clone vc = (case vc of None \<Rightarrow> NewVectorClock | Some v \<Rightarrow> \<lparr>Clock = Clock v\<rparr>)"

text \<open>
  \<^verbatim>\<open>Compare\<close>: the two loops only raise the flags \<open>vcDominates\<close> and \<open>otherDominates\<close>, so each
  flag is the disjunction over the entries visited.
\<close>

definition Compare :: "VectorClock option \<Rightarrow> VectorClock option \<Rightarrow> int" where
  "Compare vc other =
     (case (vc, other) of
        (None, None) \<Rightarrow> 0
      | (None, Some b) \<Rightarrow> - 1
      | (Some a, None) \<Rightarrow> 1
      | (Some a, Some b) \<Rightarrow>
          (let vcDominates =
                 (\<exists>node \<in> dom (Clock a).
                    case Clock b node of
                      Some otherCount \<Rightarrow> otherCount < the (Clock a node)
                    | None \<Rightarrow> True);
               otherDominates =
                 ((\<exists>node \<in> dom (Clock a).
                    case Clock b node of
                      Some otherCount \<Rightarrow> the (Clock a node) < otherCount
                    | None \<Rightarrow> False)
                  \<or> (\<exists>node \<in> dom (Clock b). Clock a node = None))
           in if vcDominates \<and> \<not> otherDominates then 1
              else if \<not> vcDominates \<and> otherDominates then - 1
              else 0))"

text \<open>
  The reading of a clock that the specification uses: a missing entry, and every entry of a
  \<^verbatim>\<open>nil\<close> clock, is 0. \<open>std_dominates a b\<close> is the standard strict order on these readings.
\<close>

definition count_of :: "VectorClock option \<Rightarrow> string \<Rightarrow> int" where
  "count_of vc node =
     (case vc of None \<Rightarrow> 0 | Some v \<Rightarrow> (case Clock v node of None \<Rightarrow> 0 | Some n \<Rightarrow> n))"

definition std_dominates :: "VectorClock option \<Rightarrow> VectorClock option \<Rightarrow> bool" where
  "std_dominates a b \<longleftrightarrow>
     (\<forall>node. count_of b node \<le> count_of a node) \<and> (\<exists>node. count_of b node < count_of a node)"


text \<open>
  Clocks built by \<^verbatim>\<open>NewVectorClock\<close>, \<^verbatim>\<open>Increment\<close>, \<^verbatim>\<open>Merge\<close> and \<^verbatim>\<open>Clone\<close> hold
  positive entries only (below the wrap-around); a clock decoded from a request body may
  hold any integer.
\<close>

definition positive_entries :: "VectorClock option \<Rightarrow> bool" where
  "positive_entries vc \<longleftrightarrow>
     (case vc of None \<Rightarrow> True | Some v \<Rightarrow> (\<forall>node count. Clock v node = Some count \<longrightarrow> 0 < count))"

section \<open>Stored values and local writes (backend/node.go)\<close>

text \<open>
  \<^verbatim>\<open>storedValue\<close> holds a list of \<^verbatim>\<open>storedValue\<close>s, so it is a datatype; its fields are
  \<^verbatim>\<open>Value\<close>, \<^verbatim>\<open>VectorClock\<close> (here \<open>VClock\<close>), \<^verbatim>\<open>Conflicts\<close> and \<^verbatim>\<open>Timestamp\<close>.
  \<^verbatim>\<open>Value\<close> is an \<^verbatim>\<open>interface{}\<close>: \<open>None\<close> is \<^verbatim>\<open>nil\<close>, and the type \<open>'v\<close> of the
  non-nil values is left open. Times are natural numbers. \<^verbatim>\<open>storedValue{}\<close> is \<open>emptyValue\<close>.
\<close>

datatype 'v storedValue =
  StoredValue (Value: "'v option") (VClock: "VectorClock option")
    (Conflicts: "'v storedValue list") (Timestamp: nat)

definition emptyValue :: "'v storedValue" where
  "emptyValue = StoredValue None None [] 0"

text \<open>\<^verbatim>\<open>HintedWrite\<close>; its \<^verbatim>\<open>Value\<close>, \<^verbatim>\<open>VectorClock\<close> and \<^verbatim>\<open>Timestamp\<close> carry the prefix \<open>Hint\<close>.\<close>

record 'v HintedWrite =
  Key :: string
  HintValue :: "'v option"
  HintClock :: "VectorClock option"
  TargetNode :: string
  HintTimestamp :: nat
  Attempts :: int

text \<open>
  The part of \<^verbatim>\<open>Coordinator\<close> (with its embedded \<^verbatim>\<open>Node\<close>) that the operations below
  read and write. \<^verbatim>\<open>Storage\<close> is the key-value store behind the \<^verbatim>\<open>Storage\<close> interface.
  \<^verbatim>\<open>Hints\<close> is a Go map from target node to a slice; a \<^verbatim>\<open>range\<close> over it visits the targets
  in an order the runtime picks, so it is an association list whose order stands for that
  order, read with \<open>map_of\<close>.
\<close>

record 'v Coordinator =
  NodeID :: string
  Replication :: int
  ReadQuorum :: int
  WriteQuorum :: int
  Storage :: "string \<rightharpoonup> 'v storedValue"
  Hints :: "(string \<times> 'v HintedWrite list) list"

text \<open>
  \<^verbatim>\<open>compareVectorClocks(a, b)\<close>, with the strings it returns. As in \<^verbatim>\<open>Compare\<close>, the
  loops only raise the flags \<open>aGreater\<close> and \<open>bGreater\<close>.
\<close>

definition compareVectorClocks :: "VectorClock option \<Rightarrow> VectorClock option \<Rightarrow> string" where
  "compareVectorClocks a b =
     (case (a, b) of
        (Some va, Some vb) \<Rightarrow>
          (let aGreater =
                 (\<exists>node \<in> dom (Clock va).
                    case Clock vb node of
                      Some bCount \<Rightarrow> bCount < the (Clock va node)
                    | None \<Rightarrow> True);
               bGreater =
                 ((\<exists>node \<in> dom (Clock va).
                    case Clock vb node of
                      Some bCount \<Rightarrow> the (Clock va node) < bCount
                    | None \<Rightarrow> False)
                  \<or> (\<exists>node \<in> dom (Clock vb). Clock va node = None))
           in if aGreater \<and> bGreater then ''concurrent''
              else if bGreater then ''newer''
              else ''older'')
      | _ \<Rightarrow> ''concurrent'')"

text \<open>
  \<^verbatim>\<open>localPut(key, value, vc)\<close> returns its boolean and the coordinator after the call.
  The first statement logs \<^verbatim>\<open>vc.Clock\<close>, so a \<^verbatim>\<open>nil\<close> clock panics there (result \<open>None\<close>)
  and the nil check that follows never fires. \<open>now\<close> is \<^verbatim>\<open>time.Now()\<close>, and \<open>putOk\<close> tells
  whether \<^verbatim>\<open>Storage.Put\<close> returns without error. The counters in \<^verbatim>\<open>Stats\<close> are left out.
\<close>

definition localPut ::
  "'v Coordinator \<Rightarrow> string \<Rightarrow> 'v option \<Rightarrow> VectorClock option \<Rightarrow> nat \<Rightarrow> bool
     \<Rightarrow> (bool \<times> 'v Coordinator) option" where
  "localPut c key value vc now putOk =
     (case vc of
        None \<Rightarrow> None
      | Some v \<Rightarrow>
          (let newValue = StoredValue value (Some (Clone vc)) [] now;
               put = (\<lambda>sv. if putOk then (True, c\<lparr>Storage := (Storage c)(key \<mapsto> sv)\<rparr>)
                           else (False, c))
           in case Storage c key of
                Some existing \<Rightarrow>
                  (let comparison = compareVectorClocks (VClock existing) vc
                   in if comparison = ''concurrent'' then
                        Some (put (StoredValue value (Merge (Some (Clone vc)) (VClock existing))
                                     (Conflicts existing @ [existing]) now))
                      else if comparison = ''older'' then Some (True, c)
                      else Some (put newValue))
              | None \<Rightarrow> Some (put newValue)))"

section \<open>Configuration and start-up (backend/config.go, backend/main.go)\<close>











section \<open>The hint buffer and local reads (backend/node.go, backend/main.go)\<close>

definition hintStorageLimit :: nat where
  "hintStorageLimit = 1000"

text \<open>
  \<^verbatim>\<open>storeHint(targetNode, key, value, vc)\<close>, called at time \<open>now\<close>. A target without an entry
  gets the empty slice first; a slice at the limit loses its first element
  (\<^verbatim>\<open>c.Hints[targetNode][1:]\<close>); then the hint is appended.
\<close>

definition storeHint ::
  "'v Coordinator \<Rightarrow> string \<Rightarrow> string \<Rightarrow> 'v option \<Rightarrow> VectorClock option \<Rightarrow> nat
     \<Rightarrow> 'v Coordinator" where
  "storeHint c targetNode key value vc now =
     (let hints = (case map_of (Hints c) targetNode of None \<Rightarrow> [] | Some hs \<Rightarrow> hs);
          hint = \<lparr>Key = key, HintValue = value, HintClock = Some (Clone vc),
                  TargetNode = targetNode, HintTimestamp = now, Attempts = 0\<rparr>;
          kept = (if hintStorageLimit \<le> length hints then drop 1 hints else hints)
      in c\<lparr>Hints := AList.update targetNode (kept @ [hint]) (Hints c)\<rparr>)"

text \<open>
  The second critical section of \<^verbatim>\<open>processHints\<close>, for one target and the keys of the hints
  that were delivered: the hints with these keys leave the list, the others keep their
  order, and a target left without hints is deleted.
\<close>

definition removeDelivered :: "'v Coordinator \<Rightarrow> string \<Rightarrow> string list \<Rightarrow> 'v Coordinator" where
  "removeDelivered c targetNode successfulHints =
     (case map_of (Hints c) targetNode of
        None \<Rightarrow> c
      | Some originalHints \<Rightarrow>
          (let newHints = filter (\<lambda>hint. \<not> List.member successfulHints (Key hint)) originalHints
           in if newHints = [] then c\<lparr>Hints := AList.delete targetNode (Hints c)\<rparr>
              else c\<lparr>Hints := AList.update targetNode newHints (Hints c)\<rparr>))"

text \<open>
  The critical section of \<^verbatim>\<open>forceReconnectHints\<close> after a hint with key \<open>key\<close> was delivered to
  \<open>nodeID\<close>. The loop stops at the first hint with that key, at index \<open>i\<close>: a single hint
  leaves the empty slice; a hint that is not the last one is overwritten by the last one
  and the slice is cut by one; the last hint is cut off. An empty list deletes the target.
\<close>

definition swapRemove :: "'v HintedWrite list \<Rightarrow> string \<Rightarrow> 'v HintedWrite list" where
  "swapRemove hints key =
     (let i = length (takeWhile (\<lambda>h. Key h \<noteq> key) hints)
      in if i < length hints then
           (if length hints = 1 then []
            else if i < length hints - 1 then butlast (hints[i := last hints])
            else butlast hints)
         else hints)"

definition forceReconnectRemove :: "'v Coordinator \<Rightarrow> string \<Rightarrow> string \<Rightarrow> 'v Coordinator" where
  "forceReconnectRemove c nodeID key =
     (let hints = (case map_of (Hints c) nodeID of None \<Rightarrow> [] | Some hs \<Rightarrow> hs);
          hints' = swapRemove hints key
      in if hints' = [] then c\<lparr>Hints := AList.delete nodeID (Hints c)\<rparr>
         else c\<lparr>Hints := AList.update nodeID hints' (Hints c)\<rparr>)"

text \<open>
  The coordinators that these three operations, the only ones that write \<^verbatim>\<open>Hints\<close>, reach
  from one without hints.
\<close>

inductive hints_reachable :: "'v Coordinator \<Rightarrow> bool" where
  start: "Hints c = [] \<Longrightarrow> hints_reachable c"
| store: "hints_reachable c \<Longrightarrow> hints_reachable (storeHint c targetNode key value vc now)"
| delivered: "hints_reachable c \<Longrightarrow> hints_reachable (removeDelivered c targetNode keys)"
| reconnected: "hints_reachable c \<Longrightarrow> hints_reachable (forceReconnectRemove c nodeID key)"

text \<open>
  The two properties of the buffer: no target holds more than \<^verbatim>\<open>hintStorageLimit\<close> hints,
  and the hints of a target stand in the order in which they were stored, which is the
  order of their timestamps.
\<close>

definition hints_bounded :: "'v Coordinator \<Rightarrow> bool" where
  "hints_bounded c \<longleftrightarrow>
     (\<forall>targetNode hints. map_of (Hints c) targetNode = Some hints \<longrightarrow> length hints \<le> hintStorageLimit)"

definition arrival_order :: "'v HintedWrite list \<Rightarrow> bool" where
  "arrival_order hints \<longleftrightarrow> sorted (map HintTimestamp hints)"

text \<open>
  \<^verbatim>\<open>localGet(key)\<close>: the stored value when it exists and its \<^verbatim>\<open>Value\<close> is not \<^verbatim>\<open>nil\<close>;
  otherwise the first hint with this key, over the targets in the order of the
  \<^verbatim>\<open>range\<close> and the hints of a target in their order; otherwise \<^verbatim>\<open>storedValue{}\<close>.
\<close>

definition localGet :: "'v Coordinator \<Rightarrow> string \<Rightarrow> 'v storedValue" where
  "localGet c key =
     (let fromHints =
            (case find (\<lambda>hint. Key hint = key) (concat (map snd (Hints c))) of
               Some hint \<Rightarrow> StoredValue (HintValue hint) (HintClock hint) [] (HintTimestamp hint)
             | None \<Rightarrow> emptyValue)
      in case Storage c key of
           Some val \<Rightarrow> if Value val \<noteq> None then val else fromHints
         | None \<Rightarrow> fromHints)"

text \<open>
  The body that \<^verbatim>\<open>InternalGetHandler\<close> answers \<^verbatim>\<open>GET /internal/kv/{key}\<close> with. It reads
  \<^verbatim>\<open>value.VectorClock.Clock\<close>, and \<^verbatim>\<open>conflict.VectorClock.Clock\<close> for every conflict, so a
  \<^verbatim>\<open>nil\<close> clock panics (\<open>None\<close>), as it does for a key the node does not hold.
\<close>

record 'v internalGetResponse =
  resp_value :: "'v option"
  resp_vector_clock :: "string \<rightharpoonup> int"
  resp_timestamp :: nat
  resp_conflicts :: "('v option \<times> (string \<rightharpoonup> int)) list option"

definition InternalGetHandler :: "'v Coordinator \<Rightarrow> string \<Rightarrow> 'v internalGetResponse option" where
  "InternalGetHandler c key =
     (let value = localGet c key
      in case VClock value of
           None \<Rightarrow> None
         | Some vc \<Rightarrow>
             if Conflicts value = [] then
               Some \<lparr>resp_value = Value value, resp_vector_clock = Clock vc,
                     resp_timestamp = Timestamp value, resp_conflicts = None\<rparr>
             else if \<exists>conflict \<in> set (Conflicts value). VClock conflict = None then None
             else
               Some \<lparr>resp_value = Value value, resp_vector_clock = Clock vc,
                     resp_timestamp = Timestamp value,
                     resp_conflicts =
                       Some (map (\<lambda>conflict. (Value conflict, Clock (the (VClock conflict))))
                               (Conflicts value))\<rparr>)"

section \<open>Coordinator reads and writes (backend/node.go)\<close>

text \<open>
  What a request meets outside the coordinator's own state:
  \<^item> \<open>responsibleNodes key\<close>: the preference list and the replacement map that
    \<^verbatim>\<open>getResponsibleNodes(key, true)\<close> returns; they depend on the ring, on the gossip view
    at the time of each retry and on the order of a \<^verbatim>\<open>range\<close> over the node set;
  \<^item> \<open>remoteGet nodeID key i\<close>: the stored value that attempt \<open>i\<close> of \<^verbatim>\<open>remoteGet\<close> decodes
    from the peer's answer, \<^verbatim>\<open>storedValue{}\<close> when the call fails;
  \<^item> \<open>remotePut nodeID key value vc i\<close>: whether attempt \<open>i\<close> of \<^verbatim>\<open>remotePut\<close> gets status 200;
  \<^item> \<open>rangeOrder\<close>: the order in which \<^verbatim>\<open>resolveConflicts\<close> visits the response map;
  \<^item> \<open>storagePutOk\<close>: whether \<^verbatim>\<open>Storage.Put\<close> succeeds.
  Each node is asked by a goroutine of its own; the model asks them in the order of the
  preference list. Latency and counter statistics are left out.
\<close>

record 'v Network =
  responsibleNodes :: "string \<Rightarrow> string list \<times> (string \<times> string) list"
  remoteGet :: "string \<Rightarrow> string \<Rightarrow> nat \<Rightarrow> 'v storedValue"
  remotePut :: "string \<Rightarrow> string \<Rightarrow> 'v option \<Rightarrow> VectorClock \<Rightarrow> nat \<Rightarrow> bool"
  rangeOrder :: "(string \<times> 'v storedValue) list \<Rightarrow> (string \<times> 'v storedValue) list"
  storagePutOk :: bool

datatype error = InsufficientReplicasForRead | InsufficientReplicasForWrite | NilPointerPanic

definition maxRetryAttempts :: nat where
  "maxRetryAttempts = 3"

text \<open>
  The preference list. One call of \<^verbatim>\<open>determineResponsibleNodes\<close> reads \<^verbatim>\<open>c.Ring.GetNode(key)\<close>
  (\<open>viewPrimary\<close>), \<^verbatim>\<open>c.Ring.getAllNodeIDs()\<close> (\<open>viewAllNodes\<close>, the node set in the order of a
  \<^verbatim>\<open>range\<close> over it) and the gossip service (\<open>viewAlive\<close>: \<open>None\<close> when \<^verbatim>\<open>c.Gossip\<close> is \<^verbatim>\<open>nil\<close>,
  and else whether the status of a node is \<^verbatim>\<open>StatusAlive\<close>).
\<close>

record ringView =
  viewPrimary :: string
  viewAllNodes :: "string list"
  viewAlive :: "(string \<Rightarrow> bool) option"

definition isNodeAvailable :: "'v Coordinator \<Rightarrow> ringView \<Rightarrow> string \<Rightarrow> bool" where
  "isNodeAvailable c view nodeID =
     (if nodeID = NodeID c then True
      else (case viewAlive view of
              None \<Rightarrow> True
            | Some isAlive \<Rightarrow> isAlive nodeID))"

text \<open>
  The index of the primary node among all nodes, 0 when it is not among them, and Go's
  remainder \<^verbatim>\<open>%\<close>, which has the sign of the dividend.
\<close>

definition primaryIndexOf :: "string list \<Rightarrow> string \<Rightarrow> nat" where
  "primaryIndexOf allNodes primary =
     (case find (\<lambda>i. allNodes ! i = primary) [0..<length allNodes] of
        Some i \<Rightarrow> i
      | None \<Rightarrow> 0)"

definition go_rem :: "int \<Rightarrow> int \<Rightarrow> int" where
  "go_rem x n = (if 0 \<le> x then x mod n else - ((- x) mod n))"

text \<open>
  The inner loop of \<^verbatim>\<open>determineResponsibleNodes\<close> over the candidates \<open>j\<close>: the first
  candidate that is available and not yet in \<open>nodes\<close>, \<open>Some None\<close> when there is none. The
  index \<^verbatim>\<open>(primaryIndex + c.Replication + j) % len(allNodes)\<close> is computed on 64-bit integers; a
  negative index panics (\<open>None\<close>).
\<close>

fun findReplacement ::
  "'v Coordinator \<Rightarrow> ringView \<Rightarrow> nat \<Rightarrow> string list \<Rightarrow> nat list \<Rightarrow> string option option" where
  "findReplacement c view primaryIndex nodes [] = Some None"
| "findReplacement c view primaryIndex nodes (j # js) =
     (let candidateIdx =
            go_rem (int64_wrap (int primaryIndex + Replication c + int j))
              (int (length (viewAllNodes view)))
      in if candidateIdx < 0 then None
         else
           (let candidate = viewAllNodes view ! nat candidateIdx
            in if isNodeAvailable c view candidate \<and> \<not> List.member nodes candidate then
                 Some (Some candidate)
               else findReplacement c view primaryIndex nodes js))"

text \<open>
  The outer loop over the replicas \<open>i\<close>, from the \<open>nodes\<close> and the \<open>replacementMap\<close> built so
  far. An unavailable node is replaced by the candidate found for it, and stays when none
  is found.
\<close>

fun determineResponsibleNodes_loop ::
  "'v Coordinator \<Rightarrow> ringView \<Rightarrow> bool \<Rightarrow> nat \<Rightarrow> nat list \<Rightarrow> string list \<Rightarrow> (string \<times> string) list
     \<Rightarrow> (string list \<times> (string \<times> string) list) option" where
  "determineResponsibleNodes_loop c view sloppy primaryIndex [] nodes replacementMap =
     Some (nodes, replacementMap)"
| "determineResponsibleNodes_loop c view sloppy primaryIndex (i # is) nodes replacementMap =
     (let nodeID = viewAllNodes view ! ((primaryIndex + i) mod length (viewAllNodes view))
      in if sloppy \<and> \<not> isNodeAvailable c view nodeID then
           (case findReplacement c view primaryIndex nodes [0..<length (viewAllNodes view)] of
              None \<Rightarrow> None
            | Some None \<Rightarrow>
                determineResponsibleNodes_loop c view sloppy primaryIndex is
                  (nodes @ [nodeID]) replacementMap
            | Some (Some candidate) \<Rightarrow>
                determineResponsibleNodes_loop c view sloppy primaryIndex is
                  (nodes @ [candidate]) (AList.update nodeID candidate replacementMap))
         else
           determineResponsibleNodes_loop c view sloppy primaryIndex is
             (nodes @ [nodeID]) replacementMap)"

text \<open>
  \<^verbatim>\<open>determineResponsibleNodes\<close>: nothing for an empty ring; \<^verbatim>\<open>make([]string, 0, c.Replication)\<close>
  panics (\<open>None\<close>) on a negative capacity and is taken to succeed otherwise; the loop runs
  while \<^verbatim>\<open>i < c.Replication && i < len(allNodes)\<close>.
\<close>

definition determineResponsibleNodes ::
  "'v Coordinator \<Rightarrow> ringView \<Rightarrow> bool \<Rightarrow> (string list \<times> (string \<times> string) list) option" where
  "determineResponsibleNodes c view sloppy =
     (if length (viewAllNodes view) = 0 then Some ([], [])
      else if Replication c < 0 then None
      else
        determineResponsibleNodes_loop c view sloppy
          (primaryIndexOf (viewAllNodes view) (viewPrimary view))
          [0..<min (nat (Replication c)) (length (viewAllNodes view))] [] [])"

text \<open>
  \<^verbatim>\<open>getResponsibleNodes\<close> asks up to three times, until the list has \<^verbatim>\<open>c.Replication\<close> entries,
  and returns what the last call gave; \<open>views i\<close> is what attempt \<open>i\<close> reads. The requests
  below take its result from \<open>responsibleNodes\<close> of the network.
\<close>

definition getResponsibleNodes ::
  "'v Coordinator \<Rightarrow> (nat \<Rightarrow> ringView) \<Rightarrow> bool \<Rightarrow> (string list \<times> (string \<times> string) list) option" where
  "getResponsibleNodes c views sloppy =
     (let results = map (\<lambda>i. determineResponsibleNodes c (views i) sloppy) [0..<maxRetryAttempts]
      in case find (\<lambda>result. case result of
                                 None \<Rightarrow> True
                               | Some (nodes, replacements) \<Rightarrow> Replication c \<le> int (length nodes))
                results of
           Some result \<Rightarrow> result
         | None \<Rightarrow> last results)"

text \<open>\<^verbatim>\<open>remoteGetWithRetry\<close>: the first attempt whose value is not \<^verbatim>\<open>nil\<close>.\<close>

definition remoteGetWithRetry :: "'v Network \<Rightarrow> string \<Rightarrow> string \<Rightarrow> 'v storedValue" where
  "remoteGetWithRetry net nodeID key =
     (case find (\<lambda>sv. Value sv \<noteq> None) (map (remoteGet net nodeID key) [0..<maxRetryAttempts]) of
        Some sv \<Rightarrow> sv
      | None \<Rightarrow> emptyValue)"

definition retrieveValue :: "'v Network \<Rightarrow> 'v Coordinator \<Rightarrow> string \<Rightarrow> string \<Rightarrow> 'v storedValue" where
  "retrieveValue net c nodeID key =
     (if nodeID = NodeID c then localGet c key else remoteGetWithRetry net nodeID key)"

text \<open>
  \<^verbatim>\<open>gatherResponses\<close> fills a map from node to response with the responses whose value is
  not \<^verbatim>\<open>nil\<close>; \<^verbatim>\<open>len(responses)\<close> is the length of the association list.
\<close>

definition gatherResponses ::
  "'v Network \<Rightarrow> 'v Coordinator \<Rightarrow> string list \<Rightarrow> string \<Rightarrow> (string \<times> 'v storedValue) list" where
  "gatherResponses net c nodes key =
     fold (\<lambda>nid responses.
             let sv = retrieveValue net c nid key
             in if Value sv \<noteq> None then AList.update nid sv responses else responses)
       nodes []"

definition mergeConflicts :: "'v storedValue \<Rightarrow> 'v storedValue \<Rightarrow> nat \<Rightarrow> 'v storedValue" where
  "mergeConflicts a b now =
     StoredValue (Value a) (Merge (Some (Clone (VClock a))) (VClock b)) (Conflicts a @ [b]) now"

text \<open>The loop of \<^verbatim>\<open>resolveConflicts\<close>, from \<open>current\<close> and \<open>conflictCount\<close> over the responses left.\<close>

fun resolveConflicts_loop ::
  "'v storedValue \<Rightarrow> int \<Rightarrow> 'v storedValue list \<Rightarrow> nat \<Rightarrow> 'v storedValue \<times> int" where
  "resolveConflicts_loop current conflictCount [] now = (current, conflictCount)"
| "resolveConflicts_loop current conflictCount (sv # rest) now =
     (if Value current = None then resolveConflicts_loop sv conflictCount rest now
      else
        (let comparison = compareVectorClocks (VClock current) (VClock sv)
         in if comparison = ''concurrent'' then
              resolveConflicts_loop (mergeConflicts current sv now) (conflictCount + 1) rest now
            else if comparison = ''newer'' then resolveConflicts_loop sv conflictCount rest now
            else resolveConflicts_loop current conflictCount rest now))"

definition resolveConflicts :: "'v storedValue list \<Rightarrow> nat \<Rightarrow> 'v storedValue \<times> int" where
  "resolveConflicts responses now = resolveConflicts_loop emptyValue 0 responses now"

text \<open>
  \<^verbatim>\<open>formatResult\<close> builds the result map of a read. It reads \<^verbatim>\<open>value.VectorClock.Clock\<close>, which
  panics on a \<^verbatim>\<open>nil\<close> clock (\<open>None\<close>). The key \<^verbatim>\<open>"conflicts"\<close> is present when \<open>conflicts > 0\<close>.
\<close>

record 'v getResult =
  res_value :: "'v option"
  res_vector_clock :: "string \<rightharpoonup> int"
  res_conflicts :: "'v option list option"

definition formatResult :: "'v storedValue \<Rightarrow> int \<Rightarrow> 'v getResult option" where
  "formatResult value conflicts =
     (case VClock value of
        None \<Rightarrow> None
      | Some vc \<Rightarrow>
          Some \<lparr>res_value = Value value, res_vector_clock = Clock vc,
                res_conflicts =
                  (if 0 < conflicts then Some (map Value (Conflicts value)) else None)\<rparr>)"

text \<open>
  \<^verbatim>\<open>repairNode\<close> sends \<^verbatim>\<open>PUT /internal/repair/<key>\<close> to \<open>nodeID\<close>; the request is what the model
  keeps. Building the body reads the clock of the value and of every conflict, so a \<^verbatim>\<open>nil\<close>
  clock panics (\<open>None\<close>). The key \<^verbatim>\<open>"conflicts"\<close> is present when there are conflicts.
\<close>

record 'v repairRequest =
  repair_target :: string
  repair_key :: string
  repair_value :: "'v option"
  repair_vector_clock :: "string \<rightharpoonup> int"
  repair_timestamp :: nat
  repair_conflicts :: "('v option \<times> (string \<rightharpoonup> int) \<times> nat) list option"

definition repairNode :: "string \<Rightarrow> string \<Rightarrow> 'v storedValue \<Rightarrow> 'v repairRequest option" where
  "repairNode nodeID key value =
     (case VClock value of
        None \<Rightarrow> None
      | Some vc \<Rightarrow>
          if \<exists>conflict \<in> set (Conflicts value). VClock conflict = None then None
          else
            Some \<lparr>repair_target = nodeID, repair_key = key, repair_value = Value value,
                  repair_vector_clock = Clock vc, repair_timestamp = Timestamp value,
                  repair_conflicts =
                    (if Conflicts value = [] then None
                     else Some (map (\<lambda>conflict. (Value conflict, Clock (the (VClock conflict)),
                                                  Timestamp conflict))
                                  (Conflicts value)))\<rparr>)"

text \<open>\<^verbatim>\<open>performReadRepairs\<close>: one \<^verbatim>\<open>repairNode\<close> for every listed node but the coordinator.\<close>

definition performReadRepairs ::
  "'v Coordinator \<Rightarrow> string list \<Rightarrow> string \<Rightarrow> 'v storedValue \<Rightarrow> 'v repairRequest option list" where
  "performReadRepairs c nodes key latest =
     map (\<lambda>nodeID. repairNode nodeID key latest) (filter (\<lambda>nodeID. nodeID \<noteq> NodeID c) nodes)"

text \<open>
  \<^verbatim>\<open>Get(key)\<close> returns the result or the error, and the model adds the repair requests that
  the call starts in the background. The hint bookkeeping of
  \<^verbatim>\<open>handleSloppyReplacements\<close>, started in the background as well, ends in \<^verbatim>\<open>storeHint\<close>
  calls and is not followed here.
\<close>

definition Get ::
  "'v Network \<Rightarrow> 'v Coordinator \<Rightarrow> string \<Rightarrow> nat
     \<Rightarrow> (error + 'v getResult) \<times> 'v repairRequest option list" where
  "Get net c key now =
     (let nodes = fst (responsibleNodes net key);
          responses = gatherResponses net c nodes key
      in if int (length responses) < ReadQuorum c then
           (let localValue = localGet c key
            in if Value localValue \<noteq> None then
                 (case formatResult localValue 0 of
                    None \<Rightarrow> (Inl NilPointerPanic, [])
                  | Some r \<Rightarrow> (Inr r, []))
               else (Inl InsufficientReplicasForRead, []))
         else
           (let (result, conflicts) = resolveConflicts (map snd (rangeOrder net responses)) now
            in (case formatResult result conflicts of
                  None \<Rightarrow> Inl NilPointerPanic
                | Some r \<Rightarrow> Inr r,
                performReadRepairs c nodes key result)))"

text \<open>
  \<^verbatim>\<open>updateLocalVectorClock\<close>: the stored clock (a fresh one when the key is absent or its
  clock is \<^verbatim>\<open>nil\<close>), cloned, with the coordinator's own entry incremented.
\<close>

definition updateLocalVectorClock :: "'v Coordinator \<Rightarrow> string \<Rightarrow> VectorClock option" where
  "updateLocalVectorClock c key =
     (case Storage c key of
        Some existing \<Rightarrow> Increment (Some (Clone (VClock existing))) (NodeID c)
      | None \<Rightarrow> Increment (Some NewVectorClock) (NodeID c))"

text \<open>
  \<^verbatim>\<open>remotePutWithRetry\<close>: some attempt succeeds. \<^verbatim>\<open>remotePut\<close> replaces a \<^verbatim>\<open>nil\<close> clock by a
  fresh one with the coordinator's entry incremented.
\<close>

definition remotePutWithRetry ::
  "'v Network \<Rightarrow> 'v Coordinator \<Rightarrow> string \<Rightarrow> string \<Rightarrow> 'v option \<Rightarrow> VectorClock option \<Rightarrow> bool" where
  "remotePutWithRetry net c nodeID key value vc =
     (let sent = (case vc of
                    Some v \<Rightarrow> v
                  | None \<Rightarrow> Clone (Increment (Some NewVectorClock) (NodeID c)))
      in \<exists>i \<in> set [0..<maxRetryAttempts]. remotePut net nodeID key value sent i)"

definition writeToNode ::
  "'v Network \<Rightarrow> 'v Coordinator \<Rightarrow> string \<Rightarrow> string \<Rightarrow> 'v option \<Rightarrow> VectorClock option \<Rightarrow> nat
     \<Rightarrow> (bool \<times> 'v Coordinator) option" where
  "writeToNode net c nodeID key value vc now =
     (if nodeID = NodeID c then localPut c key value vc now (storagePutOk net)
      else Some (remotePutWithRetry net c nodeID key value vc, c))"

text \<open>
  \<^verbatim>\<open>replicateWrite\<close> returns the nodes whose write succeeded (\<^verbatim>\<open>successNodes\<close>), one entry for
  every entry of \<open>nodes\<close> that acknowledged; the model adds the coordinator after the local
  writes. \<open>None\<close> is a panic in \<^verbatim>\<open>localPut\<close>.
\<close>

fun replicateWrite ::
  "'v Network \<Rightarrow> 'v Coordinator \<Rightarrow> string list \<Rightarrow> string \<Rightarrow> 'v option \<Rightarrow> VectorClock option \<Rightarrow> nat
     \<Rightarrow> (string list \<times> 'v Coordinator) option" where
  "replicateWrite net c [] key value vc now = Some ([], c)"
| "replicateWrite net c (nid # rest) key value vc now =
     (case writeToNode net c nid key value vc now of
        None \<Rightarrow> None
      | Some (ok, c') \<Rightarrow>
          (case replicateWrite net c' rest key value vc now of
             None \<Rightarrow> None
           | Some (successNodes, c'') \<Rightarrow>
               Some (if ok then nid # successNodes else successNodes, c'')))"

text \<open>
  \<^verbatim>\<open>processSloppyReplacements\<close>: a hint for every replaced node whose replacement is among
  the successful nodes.
\<close>

definition processSloppyReplacements ::
  "'v Coordinator \<Rightarrow> string list \<Rightarrow> (string \<times> string) list \<Rightarrow> string \<Rightarrow> 'v option
     \<Rightarrow> VectorClock option \<Rightarrow> nat \<Rightarrow> 'v Coordinator" where
  "processSloppyReplacements c successNodes replacements key value vc now =
     fold (\<lambda>(original, replacement) c'.
             if List.member successNodes replacement then storeHint c' original key value vc now
             else c')
       replacements c"

text \<open>\<^verbatim>\<open>Put(key, value)\<close> returns its error (\<open>None\<close> is \<^verbatim>\<open>nil\<close>) and the coordinator after the call.\<close>

definition Put ::
  "'v Network \<Rightarrow> 'v Coordinator \<Rightarrow> string \<Rightarrow> 'v option \<Rightarrow> nat \<Rightarrow> error option \<times> 'v Coordinator" where
  "Put net c key value now =
     (let vc = updateLocalVectorClock c key;
          (nodes, replacements) = responsibleNodes net key
      in case replicateWrite net c nodes key value vc now of
           None \<Rightarrow> (Some NilPointerPanic, c)
         | Some (successNodes, c') \<Rightarrow>
             if int (length successNodes) < WriteQuorum c then
               (Some InsufficientReplicasForWrite, c')
             else
               (None, processSloppyReplacements c' successNodes replacements key value vc now))"

section \<open>The consistent-hash ring (consistent\_hash.go)\<close>

text \<open>
  \<^verbatim>\<open>ConsistentHashRing\<close>: the sorted slice of tokens, the map from token to node, and the node
  set (a map to \<^verbatim>\<open>bool\<close> that only ever holds \<^verbatim>\<open>true\<close>). Tokens are \<^verbatim>\<open>uint64\<close>, ordered as
  unsigned numbers. The lock is left out: every operation runs alone.
\<close>

definition virtualNodeCount :: nat where
  "virtualNodeCount = 256"

record ConsistentHashRing =
  virtualNodes :: "64 word list"
  nodeMap :: "64 word \<rightharpoonup> string"
  nodes :: "string \<rightharpoonup> bool"

definition NewConsistentHashRing :: ConsistentHashRing where
  "NewConsistentHashRing = \<lparr>virtualNodes = [], nodeMap = Map.empty, nodes = Map.empty\<rparr>"

text \<open>
  \<^verbatim>\<open>hashKey\<close>. The digest function \<^verbatim>\<open>sha256.Sum256\<close> of Go's standard library is the parameter
  \<open>sha256\<close>, from the bytes of the key to the 32 bytes of the digest; \<^verbatim>\<open>hashKey\<close> reads
  bytes 0 to 7 of it.
\<close>

definition hashKey :: "(string \<Rightarrow> 8 word list) \<Rightarrow> string \<Rightarrow> 64 word" where
  "hashKey sha256 key =
     (let h = sha256 key
      in push_bit 56 (ucast (h ! 0)) OR push_bit 48 (ucast (h ! 1))
         OR push_bit 40 (ucast (h ! 2)) OR push_bit 32 (ucast (h ! 3))
         OR push_bit 24 (ucast (h ! 4)) OR push_bit 16 (ucast (h ! 5))
         OR push_bit 8 (ucast (h ! 6)) OR ucast (h ! 7))"

text \<open>The decimal digits that \<^verbatim>\<open>%d\<close> prints for a number that is not negative.\<close>

fun Itoa :: "nat \<Rightarrow> string" where
  "Itoa n = (if n < 10 then [char_of (48 + n)] else Itoa (n div 10) @ [char_of (48 + n mod 10)])"

declare Itoa.simps [simp del]

definition virtualKey :: "string \<Rightarrow> nat \<Rightarrow> string" where
  "virtualKey nodeID i = nodeID @ ''-vn-'' @ Itoa i"

text \<open>
  \<^verbatim>\<open>AddNode\<close>: the node is entered into the node set, the body of the loop
  (\<open>addVirtualNode\<close>) appends the token of each of the 256 virtual nodes and maps it to the
  node, and the slice is sorted. Nothing looks whether the node is there already.
\<close>

definition addVirtualNode ::
  "(string \<Rightarrow> 8 word list) \<Rightarrow> string \<Rightarrow> nat \<Rightarrow> ConsistentHashRing \<Rightarrow> ConsistentHashRing" where
  "addVirtualNode sha256 nodeID i c =
     (let hash = hashKey sha256 (virtualKey nodeID i)
      in c\<lparr>virtualNodes := virtualNodes c @ [hash], nodeMap := (nodeMap c)(hash \<mapsto> nodeID)\<rparr>)"

definition AddNode ::
  "(string \<Rightarrow> 8 word list) \<Rightarrow> string \<Rightarrow> ConsistentHashRing \<Rightarrow> ConsistentHashRing" where
  "AddNode sha256 nodeID c =
     (let c1 = c\<lparr>nodes := (nodes c)(nodeID \<mapsto> True)\<rparr>;
          c2 = fold (addVirtualNode sha256 nodeID) [0..<virtualNodeCount] c1
      in c2\<lparr>virtualNodes := sort (virtualNodes c2)\<rparr>)"

text \<open>\<^verbatim>\<open>c.nodeMap[hash]\<close>: the empty string for a token that is not mapped.\<close>

definition owner :: "ConsistentHashRing \<Rightarrow> 64 word \<Rightarrow> string" where
  "owner c hash = (case nodeMap c hash of None \<Rightarrow> [] | Some nodeID \<Rightarrow> nodeID)"

text \<open>
  \<^verbatim>\<open>RemoveNode\<close>: the loop keeps the tokens that are not mapped to the node and unmaps the
  others as it goes.
\<close>

fun RemoveNode_loop ::
  "string \<Rightarrow> 64 word list \<Rightarrow> ConsistentHashRing \<Rightarrow> 64 word list \<Rightarrow> ConsistentHashRing" where
  "RemoveNode_loop nodeID [] c newVirtualNodes = c\<lparr>virtualNodes := newVirtualNodes\<rparr>"
| "RemoveNode_loop nodeID (hash # rest) c newVirtualNodes =
     (if owner c hash \<noteq> nodeID then RemoveNode_loop nodeID rest c (newVirtualNodes @ [hash])
      else RemoveNode_loop nodeID rest (c\<lparr>nodeMap := (nodeMap c)(hash := None)\<rparr>) newVirtualNodes)"

definition RemoveNode :: "string \<Rightarrow> ConsistentHashRing \<Rightarrow> ConsistentHashRing" where
  "RemoveNode nodeID c =
     RemoveNode_loop nodeID (virtualNodes c) (c\<lparr>nodes := (nodes c)(nodeID := None)\<rparr>) []"

text \<open>
  \<^verbatim>\<open>sort.Search(n, f)\<close> of Go's standard library: the binary search between \<open>i\<close> and \<open>j\<close>,
  with the middle \<open>h\<close>.
\<close>

function Search_loop :: "(nat \<Rightarrow> bool) \<Rightarrow> nat \<Rightarrow> nat \<Rightarrow> nat" where
  "Search_loop f i j =
     (if i < j then
        (let h = (i + j) div 2
         in if \<not> f h then Search_loop f (h + 1) j else Search_loop f i h)
      else i)"
  by pat_completeness auto
termination
  by (relation "measure (\<lambda>(f, i, j). j - i)") auto

declare Search_loop.simps [simp del]

definition Search :: "nat \<Rightarrow> (nat \<Rightarrow> bool) \<Rightarrow> nat" where
  "Search n f = Search_loop f 0 n"

text \<open>
  \<^verbatim>\<open>GetNode\<close>. Reading \<^verbatim>\<open>c.virtualNodes[idx]\<close> panics when \<open>idx\<close> is out of range; that is the
  result \<open>None\<close>.
\<close>

definition GetNode ::
  "(string \<Rightarrow> 8 word list) \<Rightarrow> ConsistentHashRing \<Rightarrow> string \<Rightarrow> string option" where
  "GetNode sha256 c key =
     (if length (virtualNodes c) = 0 then Some []
      else
        (let hash = hashKey sha256 key;
             idx = Search (length (virtualNodes c)) (\<lambda>i. hash \<le> virtualNodes c ! i);
             idx = (if idx = length (virtualNodes c) then 0 else idx)
         in if idx < length (virtualNodes c) then Some (owner c (virtualNodes c ! idx))
            else None))"

text \<open>The rings that \<^verbatim>\<open>AddNode\<close> and \<^verbatim>\<open>RemoveNode\<close> build from \<^verbatim>\<open>NewConsistentHashRing\<close>.\<close>

inductive ring_reachable :: "(string \<Rightarrow> 8 word list) \<Rightarrow> ConsistentHashRing \<Rightarrow> bool"
  for sha256 :: "string \<Rightarrow> 8 word list" where
  new: "ring_reachable sha256 NewConsistentHashRing"
| add: "ring_reachable sha256 c \<Longrightarrow> ring_reachable sha256 (AddNode sha256 nodeID c)"
| remove: "ring_reachable sha256 c \<Longrightarrow> ring_reachable sha256 (RemoveNode nodeID c)"

text \<open>
  Among them, the rings built by \<^verbatim>\<open>AddNode\<close>, and by \<^verbatim>\<open>RemoveNode\<close> called only while the slice
  lists no token twice. Every ring built by \<^verbatim>\<open>AddNode\<close> alone is one of them.
\<close>

inductive ring_maintained :: "(string \<Rightarrow> 8 word list) \<Rightarrow> ConsistentHashRing \<Rightarrow> bool"
  for sha256 :: "string \<Rightarrow> 8 word list" where
  new: "ring_maintained sha256 NewConsistentHashRing"
| add: "ring_maintained sha256 c \<Longrightarrow> ring_maintained sha256 (AddNode sha256 nodeID c)"
| remove: "ring_maintained sha256 c \<Longrightarrow> distinct (virtualNodes c)
             \<Longrightarrow> ring_maintained sha256 (RemoveNode nodeID c)"

text \<open>
  The token that the specification names for a hash: the least token that is at least the
  hash, and the least token of all when there is none.
\<close>

definition successor_token :: "64 word list \<Rightarrow> 64 word \<Rightarrow> 64 word" where
  "successor_token tokens hash =
     (if \<exists>t \<in> set tokens. hash \<le> t then Min {t \<in> set tokens. hash \<le> t} else Min (set tokens))"

text \<open>
  The tokens of the virtual nodes \<open>is\<close> of a node, and a node that still has all of its
  tokens in the ring, mapped to itself.
\<close>

definition tokens_of :: "(string \<Rightarrow> 8 word list) \<Rightarrow> string \<Rightarrow> nat list \<Rightarrow> 64 word list" where
  "tokens_of sha256 nodeID is = map (\<lambda>i. hashKey sha256 (virtualKey nodeID i)) is"

definition owns_tokens :: "(string \<Rightarrow> 8 word list) \<Rightarrow> ConsistentHashRing \<Rightarrow> string \<Rightarrow> bool" where
  "owns_tokens sha256 c nodeID \<longleftrightarrow>
     (\<forall>i < virtualNodeCount.
        hashKey sha256 (virtualKey nodeID i) \<in> set (virtualNodes c)
        \<and> nodeMap c (hashKey sha256 (virtualKey nodeID i)) = Some nodeID)"

chapter \<open>Properties\<close>

section \<open>Vector clock comparison\<close>

text \<open>
  Both comparison functions order two entries as options: a missing entry is below every
  present one, whatever its count.
\<close>

lemma entry_less_iff:
  "(x::int option) < y \<longleftrightarrow> (\<exists>c. y = Some c \<and> (case x of Some d \<Rightarrow> d < c | None \<Rightarrow> True))"
  by (cases x; cases y) simp_all

lemma greater_flag_iff:
  "(\<exists>node \<in> dom (Clock a).
       case Clock b node of Some otherCount \<Rightarrow> otherCount < the (Clock a node) | None \<Rightarrow> True)
   \<longleftrightarrow> (\<exists>n. Clock b n < Clock a n)" (is "?L \<longleftrightarrow> ?R")
proof
  assume ?L
  then obtain n where "n \<in> dom (Clock a)"
    and "case Clock b n of Some otherCount \<Rightarrow> otherCount < the (Clock a n) | None \<Rightarrow> True"
    by blast
  then have "Clock b n < Clock a n"
    by (cases "Clock b n") (auto simp: entry_less_iff)
  then show ?R ..
next
  assume ?R
  then obtain n where n: "Clock b n < Clock a n" ..
  then obtain c where c: "Clock a n = Some c" by (auto simp: entry_less_iff)
  then have "n \<in> dom (Clock a)" by auto
  moreover from n c
  have "case Clock b n of Some otherCount \<Rightarrow> otherCount < the (Clock a n) | None \<Rightarrow> True"
    by (cases "Clock b n") auto
  ultimately show ?L by blast
qed

lemma smaller_flag_iff:
  "((\<exists>node \<in> dom (Clock a).
        case Clock b node of Some otherCount \<Rightarrow> the (Clock a node) < otherCount | None \<Rightarrow> False)
     \<or> (\<exists>node \<in> dom (Clock b). Clock a node = None))
   \<longleftrightarrow> (\<exists>n. Clock a n < Clock b n)" (is "?L \<longleftrightarrow> ?R")
proof
  assume ?L
  then show ?R
  proof
    assume "\<exists>node \<in> dom (Clock a).
        case Clock b node of Some otherCount \<Rightarrow> the (Clock a node) < otherCount | None \<Rightarrow> False"
    then obtain n where "n \<in> dom (Clock a)"
      and "case Clock b n of Some otherCount \<Rightarrow> the (Clock a n) < otherCount | None \<Rightarrow> False"
      by blast
    then have "Clock a n < Clock b n"
      by (cases "Clock b n") (auto simp: entry_less_iff)
    then show ?R ..
  next
    assume "\<exists>node \<in> dom (Clock b). Clock a node = None"
    then obtain n where "n \<in> dom (Clock b)" and "Clock a n = None" by blast
    then have "Clock a n < Clock b n" by (auto simp: entry_less_iff)
    then show ?R ..
  qed
next
  assume ?R
  then obtain n where n: "Clock a n < Clock b n" ..
  then obtain c where c: "Clock b n = Some c" by (auto simp: entry_less_iff)
  show ?L
  proof (cases "Clock a n")
    case None
    with c have "n \<in> dom (Clock b)" "Clock a n = None" by auto
    then show ?thesis by blast
  next
    case (Some d)
    with n c have "n \<in> dom (Clock a)" "the (Clock a n) < c" by auto
    with c show ?thesis by force
  qed
qed

lemma Compare_Some_Some:
  "Compare (Some a) (Some b) =
     (if (\<exists>n. Clock b n < Clock a n) \<and> \<not> (\<exists>n. Clock a n < Clock b n) then 1
      else if \<not> (\<exists>n. Clock b n < Clock a n) \<and> (\<exists>n. Clock a n < Clock b n) then - 1
      else 0)"
  unfolding Compare_def
  by (simp only: greater_flag_iff smaller_flag_iff Let_def prod.case option.case)

lemma strict_pointwise_iff:
  "(f::string \<Rightarrow> int option) < g \<longleftrightarrow> (\<exists>n. f n < g n) \<and> \<not> (\<exists>n. g n < f n)"
proof -
  have "f < g \<longleftrightarrow> (\<forall>n. f n \<le> g n) \<and> (\<exists>n. \<not> g n \<le> f n)"
    by (auto simp: less_fun_def le_fun_def)
  also have "\<dots> \<longleftrightarrow> (\<exists>n. f n < g n) \<and> \<not> (\<exists>n. g n < f n)"
    by (auto simp: not_le not_less)
  finally show ?thesis .
qed

lemma Compare_1_iff: "Compare (Some a) (Some b) = 1 \<longleftrightarrow> Clock b < Clock a"
  by (simp add: Compare_Some_Some strict_pointwise_iff)

lemma Compare_None_left: "Compare None B \<noteq> 1"
  by (cases B) (simp_all add: Compare_def)

lemma Compare_refl: "Compare A A = 0"
  by (cases A) (simp_all add: Compare_Some_Some, simp add: Compare_def)

lemma Compare_asym: "\<not> (Compare A B = 1 \<and> Compare B A = 1)"
proof (cases A)
  case None
  then show ?thesis by (simp add: Compare_None_left)
next
  case a: (Some a)
  show ?thesis
  proof (cases B)
    case None
    then show ?thesis by (simp add: Compare_None_left)
  next
    case (Some b)
    with a show ?thesis
      using less_asym [of "Clock a" "Clock b"] by (auto simp: Compare_1_iff)
  qed
qed

lemma Compare_trans:
  assumes "Compare A B = 1" and "Compare B C = 1"
  shows "Compare A C = 1"
proof -
  from assms(1) obtain a where a: "A = Some a"
    by (cases A) (simp_all add: Compare_None_left)
  from assms(2) obtain b where b: "B = Some b"
    by (cases B) (simp_all add: Compare_None_left)
  show ?thesis
  proof (cases C)
    case None
    with a show ?thesis by (simp add: Compare_def)
  next
    case (Some c)
    with assms a b have "Clock c < Clock b" "Clock b < Clock a"
      by (simp_all add: Compare_1_iff)
    then have "Clock c < Clock a" by (rule less_trans)
    with a Some show ?thesis by (simp add: Compare_1_iff)
  qed
qed

lemma positive_entriesD: "positive_entries (Some a) \<Longrightarrow> Clock a n = Some x \<Longrightarrow> 0 < x"
  by (simp add: positive_entries_def)

lemma count_of_nonneg: "positive_entries A \<Longrightarrow> 0 \<le> count_of A n"
  by (auto simp: positive_entries_def count_of_def split: option.splits intro: less_imp_le)

lemma positive_entry_le:
  assumes "positive_entries (Some a)" and "positive_entries (Some b)"
  shows "Clock b n \<le> Clock a n \<longleftrightarrow> count_of (Some b) n \<le> count_of (Some a) n"
proof (cases "Clock a n")
  case None
  show ?thesis
  proof (cases "Clock b n")
    case None
    with \<open>Clock a n = None\<close> show ?thesis by (simp add: count_of_def)
  next
    case (Some y)
    with positive_entriesD [OF assms(2) Some] \<open>Clock a n = None\<close>
    show ?thesis by (simp add: count_of_def)
  qed
next
  case (Some x)
  from positive_entriesD [OF assms(1) Some] Some show ?thesis
    by (cases "Clock b n") (auto simp: count_of_def)
qed

lemma positive_entry_less:
  assumes "positive_entries (Some a)" and "positive_entries (Some b)"
  shows "Clock b n < Clock a n \<longleftrightarrow> count_of (Some b) n < count_of (Some a) n"
  using positive_entry_le [OF assms(2) assms(1), of n] by (simp add: not_le [symmetric])

lemma positive_less_iff_std:
  assumes "positive_entries (Some a)" and "positive_entries (Some b)"
  shows "Clock b < Clock a \<longleftrightarrow> std_dominates (Some a) (Some b)"
proof -
  have "Clock b < Clock a \<longleftrightarrow> (\<forall>n. Clock b n \<le> Clock a n) \<and> (\<exists>n. Clock b n < Clock a n)"
    by (auto simp: less_fun_def le_fun_def not_le)
  then show ?thesis
    by (simp add: std_dominates_def positive_entry_le [OF assms] positive_entry_less [OF assms])
qed

lemma Compare_std_dominates:
  assumes "positive_entries A" and "positive_entries B"
    and "\<not> (B = None \<and> (\<exists>a. A = Some a \<and> Clock a = Map.empty))"
  shows "Compare A B = 1 \<longleftrightarrow> std_dominates A B"
proof (cases A)
  case None
  have "\<not> std_dominates None B"
  proof (cases B)
    case None
    then show ?thesis by (simp add: std_dominates_def count_of_def)
  next
    case (Some b)
    from assms(2) have "\<And>n. 0 \<le> count_of B n"
      by (rule count_of_nonneg)
    then show ?thesis
      by (auto simp: std_dominates_def count_of_def not_less)
  qed
  with None show ?thesis by (simp add: Compare_None_left)
next
  case a: (Some a)
  show ?thesis
  proof (cases B)
    case None
    with a assms(3) obtain n x where x: "Clock a n = Some x"
      by (metis not_None_eq)
    with a assms(1) have pos: "0 < x" by (auto dest: positive_entriesD)
    have "\<And>m. 0 \<le> count_of (Some a) m"
      using a assms(1) by (auto intro: count_of_nonneg)
    moreover from x pos have "0 < count_of (Some a) n" by (simp add: count_of_def)
    ultimately have "std_dominates (Some a) None"
      unfolding std_dominates_def by (auto simp: count_of_def)
    with a None show ?thesis by (simp add: Compare_def)
  next
    case (Some b)
    with a assms show ?thesis
      by (simp add: Compare_1_iff positive_less_iff_std)
  qed
qed

text \<open>
  Claim C2, as the code has it. The dominance that \<^verbatim>\<open>Compare\<close> reports (result 1) is a strict
  partial order on all clocks: \<^verbatim>\<open>Compare(A, A)\<close> reports neither side dominating, it never
  reports both \<open>A\<close> over \<open>B\<close> and \<open>B\<close> over \<open>A\<close>, and it is transitive. It agrees with the
  standard order (every component of \<open>A\<close> at least that of \<open>B\<close> and one strictly greater,
  missing entries and \<^verbatim>\<open>nil\<close> clocks read as 0) when every entry present in \<open>A\<close> or \<open>B\<close> is
  positive, except for a non-nil empty \<open>A\<close> against a \<^verbatim>\<open>nil\<close> \<open>B\<close>.
\<close>

theorem Compare_strict_partial_order:
  "Compare A A = 0
   \<and> \<not> (Compare A B = 1 \<and> Compare B A = 1)
   \<and> (Compare A B = 1 \<and> Compare B C = 1 \<longrightarrow> Compare A C = 1)
   \<and> (positive_entries A \<and> positive_entries B
        \<and> \<not> (B = None \<and> (\<exists>a. A = Some a \<and> Clock a = Map.empty))
      \<longrightarrow> (Compare A B = 1 \<longleftrightarrow> std_dominates A B))"
  using Compare_refl [of A] Compare_asym [of A B] Compare_trans [of A B C]
    Compare_std_dominates [of A B]
  by blast

text \<open>
  Without these provisos the standard reading fails: \<^verbatim>\<open>Compare\<close> ranks a non-nil empty clock
  above \<^verbatim>\<open>nil\<close>, and an entry 0 above a missing entry, although all components are equal.
\<close>

theorem Compare_missing_is_not_zero:
  "Compare (Some \<lparr>Clock = Map.empty\<rparr>) None = 1
   \<and> \<not> std_dominates (Some \<lparr>Clock = Map.empty\<rparr>) None
   \<and> Compare (Some \<lparr>Clock = [''nodeA'' \<mapsto> 0]\<rparr>) (Some \<lparr>Clock = Map.empty\<rparr>) = 1
   \<and> \<not> std_dominates (Some \<lparr>Clock = [''nodeA'' \<mapsto> 0]\<rparr>) (Some \<lparr>Clock = Map.empty\<rparr>)"
  by (simp add: Compare_def std_dominates_def count_of_def)

text \<open>The theorem at three clocks in a chain, all entries positive.\<close>

theorem Compare_strict_partial_order_witness:
  "Compare (Some \<lparr>Clock = [''nodeA'' \<mapsto> 2, ''nodeB'' \<mapsto> 1]\<rparr>) (Some \<lparr>Clock = [''nodeA'' \<mapsto> 1, ''nodeB'' \<mapsto> 1]\<rparr>) = 1
   \<and> Compare (Some \<lparr>Clock = [''nodeA'' \<mapsto> 1, ''nodeB'' \<mapsto> 1]\<rparr>) (Some \<lparr>Clock = [''nodeA'' \<mapsto> 1]\<rparr>) = 1
   \<and> Compare (Some \<lparr>Clock = [''nodeA'' \<mapsto> 2, ''nodeB'' \<mapsto> 1]\<rparr>) (Some \<lparr>Clock = [''nodeA'' \<mapsto> 1]\<rparr>) = 1
   \<and> positive_entries (Some \<lparr>Clock = [''nodeA'' \<mapsto> 2, ''nodeB'' \<mapsto> 1]\<rparr>)
   \<and> positive_entries (Some \<lparr>Clock = [''nodeA'' \<mapsto> 1, ''nodeB'' \<mapsto> 1]\<rparr>)
   \<and> std_dominates (Some \<lparr>Clock = [''nodeA'' \<mapsto> 2, ''nodeB'' \<mapsto> 1]\<rparr>) (Some \<lparr>Clock = [''nodeA'' \<mapsto> 1, ''nodeB'' \<mapsto> 1]\<rparr>)"
proof -
  let ?A = "Some \<lparr>Clock = [''nodeA'' \<mapsto> 2, ''nodeB'' \<mapsto> (1::int)]\<rparr>"
  let ?B = "Some \<lparr>Clock = [''nodeA'' \<mapsto> 1, ''nodeB'' \<mapsto> (1::int)]\<rparr>"
  let ?C = "Some \<lparr>Clock = [''nodeA'' \<mapsto> (1::int)]\<rparr>"
  have ab: "Compare ?A ?B = 1" by (simp add: Compare_def)
  have bc: "Compare ?B ?C = 1" by (simp add: Compare_def)
  have pa: "positive_entries ?A" by (simp add: positive_entries_def)
  have pb: "positive_entries ?B" by (simp add: positive_entries_def)
  from Compare_strict_partial_order [of ?A ?B ?C] ab bc pa pb
  show ?thesis by simp
qed

section \<open>Local writes\<close>




lemma Merge_Some: "\<exists>m. Merge (Some v) ot = Some m"
  by (cases ot) (simp_all add: Merge_def)











section \<open>Configuration validation\<close>












section \<open>The hint buffer\<close>

lemma map_of_storeHint:
  "map_of (Hints (storeHint c targetNode key value vc now)) =
     (map_of (Hints c))(targetNode \<mapsto>
        (let hints = (case map_of (Hints c) targetNode of None \<Rightarrow> [] | Some hs \<Rightarrow> hs)
         in (if hintStorageLimit \<le> length hints then drop 1 hints else hints)
            @ [\<lparr>Key = key, HintValue = value, HintClock = Some (Clone vc),
                 TargetNode = targetNode, HintTimestamp = now, Attempts = 0\<rparr>]))"
  by (simp add: storeHint_def Let_def update_conv')

lemma storeHint_bounded:
  assumes "hints_bounded c"
  shows "hints_bounded (storeHint c targetNode key value vc now)"
  unfolding hints_bounded_def
proof (intro allI impI)
  fix t hs
  assume hs: "map_of (Hints (storeHint c targetNode key value vc now)) t = Some hs"
  show "length hs \<le> hintStorageLimit"
  proof (cases "t = targetNode")
    case False
    with hs have "map_of (Hints c) t = Some hs" by (simp add: map_of_storeHint)
    with assms show ?thesis by (simp add: hints_bounded_def)
  next
    case True
    define old where "old = (case map_of (Hints c) targetNode of None \<Rightarrow> [] | Some hs \<Rightarrow> hs)"
    from assms have "length old \<le> hintStorageLimit"
      by (auto simp: old_def hints_bounded_def hintStorageLimit_def split: option.splits)
    moreover from True hs
    have "length hs = length (if hintStorageLimit \<le> length old then drop 1 old else old) + 1"
      by (auto simp: map_of_storeHint old_def Let_def)
    ultimately show ?thesis by (auto simp: hintStorageLimit_def)
  qed
qed

lemma removeDelivered_bounded:
  assumes "hints_bounded c"
  shows "hints_bounded (removeDelivered c targetNode keys)"
proof (cases "map_of (Hints c) targetNode")
  case None
  with assms show ?thesis by (simp add: removeDelivered_def)
next
  case (Some originalHints)
  with assms have le: "length originalHints \<le> hintStorageLimit" by (simp add: hints_bounded_def)
  have "length (filter (\<lambda>hint. \<not> List.member keys (Key hint)) originalHints) \<le> length originalHints"
    by (rule length_filter_le)
  with le have "length (filter (\<lambda>hint. \<not> List.member keys (Key hint)) originalHints) \<le> hintStorageLimit"
    by linarith
  with assms Some show ?thesis
    by (auto simp: removeDelivered_def hints_bounded_def Let_def update_conv' delete_conv')
qed

lemma length_swapRemove: "length (swapRemove hints key) \<le> length hints"
  by (simp add: swapRemove_def Let_def)

lemma forceReconnectRemove_bounded:
  assumes "hints_bounded c"
  shows "hints_bounded (forceReconnectRemove c nodeID key)"
proof -
  define old where "old = (case map_of (Hints c) nodeID of None \<Rightarrow> [] | Some hs \<Rightarrow> hs)"
  from assms have "length old \<le> hintStorageLimit"
    by (auto simp: old_def hints_bounded_def split: option.splits)
  with length_swapRemove [of old key] have "length (swapRemove old key) \<le> hintStorageLimit"
    by linarith
  with assms show ?thesis
    by (auto simp: forceReconnectRemove_def hints_bounded_def Let_def update_conv' delete_conv'
        old_def [symmetric])
qed

lemma hints_reachable_bounded: "hints_reachable c \<Longrightarrow> hints_bounded c"
proof (induction rule: hints_reachable.induct)
  case (start c)
  then show ?case by (simp add: hints_bounded_def)
next
  case (store c targetNode key "value" vc now)
  then show ?case by (simp add: storeHint_bounded)
next
  case (delivered c targetNode keys)
  then show ?case by (simp add: removeDelivered_bounded)
next
  case (reconnected c nodeID key)
  then show ?case by (simp add: forceReconnectRemove_bounded)
qed

lemma storeHint_appends:
  "\<exists>hint. map_of (Hints (storeHint c targetNode key value vc now)) targetNode =
       Some ((case map_of (Hints c) targetNode of
                None \<Rightarrow> []
              | Some hints \<Rightarrow> if hintStorageLimit \<le> length hints then drop 1 hints else hints)
             @ [hint])
     \<and> Key hint = key \<and> HintValue hint = value \<and> HintTimestamp hint = now"
  by (auto simp: map_of_storeHint Let_def split: option.splits)

lemma storeHint_arrival_order:
  assumes "map_of (Hints c) targetNode = Some hints" and "arrival_order hints"
    and "\<forall>h \<in> set hints. HintTimestamp h \<le> now"
    and "map_of (Hints (storeHint c targetNode key value vc now)) targetNode = Some hints'"
  shows "arrival_order hints'"
proof -
  have "sorted (map HintTimestamp (drop 1 hints))"
    using sorted_wrt_drop [of "(\<le>)" "map HintTimestamp hints" 1] assms(2)
    by (simp add: arrival_order_def drop_map)
  moreover have "\<forall>h \<in> set (drop 1 hints). HintTimestamp h \<le> now"
    using assms(3) by (auto dest: in_set_dropD)
  ultimately show ?thesis
    using assms by (auto simp: map_of_storeHint Let_def arrival_order_def sorted_append)
qed

lemma removeDelivered_arrival_order:
  assumes "map_of (Hints c) targetNode = Some hints" and "arrival_order hints"
    and "map_of (Hints (removeDelivered c targetNode keys)) targetNode = Some hints'"
  shows "arrival_order hints'"
proof -
  have "sorted (map HintTimestamp (filter (\<lambda>hint. \<not> List.member keys (Key hint)) hints))"
    using assms(2) by (simp add: arrival_order_def sorted_filter)
  with assms show ?thesis
    by (auto simp: removeDelivered_def Let_def arrival_order_def update_conv' delete_conv'
        split: if_splits)
qed

lemma arrival_order_head_oldest:
  "arrival_order (h # hints) \<Longrightarrow> \<forall>h' \<in> set hints. HintTimestamp h \<le> HintTimestamp h'"
  by (simp add: arrival_order_def)

text \<open>
  Claim C9. The bound holds: \<open>hints_reachable_bounded\<close> above shows that no operation lets a
  list exceed 1000 hints, and \<^verbatim>\<open>storeHint\<close> on a full list drops the head before it appends.
  \<^verbatim>\<open>storeHint\<close> and the removal in \<^verbatim>\<open>processHints\<close> keep the list in arrival order, so the
  head they leave is the oldest hint. \<^verbatim>\<open>forceReconnectHints\<close> does not: it moves the last
  hint into the place of the delivered one. After three hints stored for \<open>nodeC\<close> at times
  1, 2 and 3 and the delivery of the first, the list holds the hint of time 3 before the
  hint of time 2; the head is then the newest hint, and the next eviction would take it.
\<close>

theorem forceReconnectHints_breaks_arrival_order:
  "map_of (Hints (storeHint (storeHint (storeHint
       \<lparr>NodeID = ''nodeA'', Replication = 3, ReadQuorum = 2, WriteQuorum = 2,
         Storage = Map.empty, Hints = []\<rparr>
       ''nodeC'' ''k1'' (Some ''v1'') None 1)
       ''nodeC'' ''k2'' (Some ''v2'') None 2)
       ''nodeC'' ''k3'' (Some ''v3'') None 3)) ''nodeC''
     = Some [\<lparr>Key = ''k1'', HintValue = Some ''v1'', HintClock = Some NewVectorClock,
               TargetNode = ''nodeC'', HintTimestamp = 1, Attempts = 0\<rparr>,
             \<lparr>Key = ''k2'', HintValue = Some ''v2'', HintClock = Some NewVectorClock,
               TargetNode = ''nodeC'', HintTimestamp = 2, Attempts = 0\<rparr>,
             \<lparr>Key = ''k3'', HintValue = Some ''v3'', HintClock = Some NewVectorClock,
               TargetNode = ''nodeC'', HintTimestamp = 3, Attempts = 0\<rparr>]
   \<and> map_of (Hints (forceReconnectRemove (storeHint (storeHint (storeHint
       \<lparr>NodeID = ''nodeA'', Replication = 3, ReadQuorum = 2, WriteQuorum = 2,
         Storage = Map.empty, Hints = []\<rparr>
       ''nodeC'' ''k1'' (Some ''v1'') None 1)
       ''nodeC'' ''k2'' (Some ''v2'') None 2)
       ''nodeC'' ''k3'' (Some ''v3'') None 3) ''nodeC'' ''k1'')) ''nodeC''
     = Some [\<lparr>Key = ''k3'', HintValue = Some ''v3'', HintClock = Some NewVectorClock,
               TargetNode = ''nodeC'', HintTimestamp = 3, Attempts = 0\<rparr>,
             \<lparr>Key = ''k2'', HintValue = Some ''v2'', HintClock = Some NewVectorClock,
               TargetNode = ''nodeC'', HintTimestamp = 2, Attempts = 0\<rparr>]
   \<and> \<not> arrival_order
         [\<lparr>Key = ''k3'', HintValue = Some ''v3'', HintClock = Some NewVectorClock,
               TargetNode = ''nodeC'', HintTimestamp = 3, Attempts = 0\<rparr>,
          \<lparr>Key = ''k2'', HintValue = Some ''v2'', HintClock = Some NewVectorClock,
               TargetNode = ''nodeC'', HintTimestamp = 2, Attempts = 0\<rparr>]"
  by (simp add: storeHint_def forceReconnectRemove_def swapRemove_def Clone_def
      hintStorageLimit_def arrival_order_def Let_def)

text \<open>
  Every value that \<^verbatim>\<open>localPut\<close> stores and every hint that \<^verbatim>\<open>storeHint\<close> buffers carries a
  clock, so the values that local reads return have one when the stored values have.
\<close>

lemma localPut_keeps_clocks:
  assumes "localPut c key value vc now putOk = Some (ok, c')"
    and "\<forall>k sv. Storage c k = Some sv \<longrightarrow> VClock sv \<noteq> None"
  shows "\<forall>k sv. Storage c' k = Some sv \<longrightarrow> VClock sv \<noteq> None"
proof -
  from assms(1) obtain v where v: "vc = Some v"
    by (cases vc) (simp_all add: localPut_def)
  have m: "\<And>w st. \<exists>y. Merge (Some w) st = Some y"
    by (rule Merge_Some)
  from assms v show ?thesis
    by (auto simp: localPut_def Let_def m split: option.splits if_splits)
qed

lemma storeHint_keeps_clocks:
  assumes "\<forall>t hs h. map_of (Hints c) t = Some hs \<and> h \<in> set hs \<longrightarrow> HintClock h \<noteq> None"
  shows "\<forall>t hs h. map_of (Hints (storeHint c targetNode key value vc now)) t = Some hs \<and> h \<in> set hs
           \<longrightarrow> HintClock h \<noteq> None"
proof (intro allI impI)
  fix t hs h
  assume a: "map_of (Hints (storeHint c targetNode key value vc now)) t = Some hs \<and> h \<in> set hs"
  show "HintClock h \<noteq> None"
  proof (cases "t = targetNode")
    case False
    with a assms show ?thesis by (auto simp: map_of_storeHint)
  next
    case True
    show ?thesis
    proof (cases "map_of (Hints c) targetNode")
      case None
      with a True show ?thesis by (auto simp: map_of_storeHint Let_def)
    next
      case (Some old)
      with a True have "h \<in> set old \<or> HintClock h = Some (Clone vc)"
        by (auto simp: map_of_storeHint Let_def split: if_splits dest: in_set_dropD)
      with assms Some show ?thesis by auto
    qed
  qed
qed

section \<open>Quorums, degraded reads and read repair\<close>

lemma localPut_Some: "\<exists>ok c'. localPut c key value (Some v) now putOk = Some (ok, c')"
  by (auto simp: localPut_def Let_def split: option.splits)

lemma writeToNode_Some: "\<exists>ok c'. writeToNode net c nodeID key value (Some v) now = Some (ok, c')"
  using localPut_Some [of c key "value" v now "storagePutOk net"]
  by (auto simp: writeToNode_def)

lemma replicateWrite_Some:
  "\<exists>successNodes c'. replicateWrite net c preference key value (Some v) now = Some (successNodes, c')"
proof (induction preference arbitrary: c)
  case Nil
  show ?case by simp
next
  case (Cons nid rest)
  obtain ok c1 where w: "writeToNode net c nid key value (Some v) now = Some (ok, c1)"
    using writeToNode_Some by blast
  obtain succ c2 where r: "replicateWrite net c1 rest key value (Some v) now = Some (succ, c2)"
    using Cons.IH by blast
  from w r show ?case by simp
qed

lemma replicateWrite_subset:
  "replicateWrite net c preference key value vc now = Some (successNodes, c')
     \<Longrightarrow> set successNodes \<subseteq> set preference \<and> length successNodes \<le> length preference"
proof (induction preference arbitrary: c successNodes)
  case Nil
  then show ?case by simp
next
  case (Cons nid rest)
  from Cons.prems obtain ok c1 where w: "writeToNode net c nid key value vc now = Some (ok, c1)"
    by (auto split: option.splits)
  with Cons.prems obtain succ where
    r: "replicateWrite net c1 rest key value vc now = Some (succ, c')"
    and s: "successNodes = (if ok then nid # succ else succ)"
    by (auto split: option.splits)
  from Cons.IH [OF r] s show ?case by auto
qed

lemma localPut_NodeID:
  "localPut c key value vc now putOk = Some (ok, c') \<Longrightarrow> NodeID c' = NodeID c"
  by (auto simp: localPut_def Let_def split: option.splits if_splits)

lemma writeToNode_NodeID:
  "writeToNode net c nodeID key value vc now = Some (ok, c') \<Longrightarrow> NodeID c' = NodeID c"
  by (auto simp: writeToNode_def split: if_splits dest: localPut_NodeID)

lemma remotePutWithRetry_NodeID:
  "NodeID c' = NodeID c \<Longrightarrow>
     remotePutWithRetry net c' nodeID key value vc = remotePutWithRetry net c nodeID key value vc"
  by (cases vc) (simp_all add: remotePutWithRetry_def)

lemma replicateWrite_remote:
  assumes "replicateWrite net c preference key value vc now = Some (successNodes, c')"
    and "nid \<noteq> NodeID c"
  shows "nid \<in> set successNodes \<longleftrightarrow>
           nid \<in> set preference \<and> remotePutWithRetry net c nid key value vc"
  using assms
proof (induction preference arbitrary: c successNodes)
  case Nil
  then show ?case by simp
next
  case (Cons n rest)
  from Cons.prems(1) obtain ok c1 where w: "writeToNode net c n key value vc now = Some (ok, c1)"
    by (auto split: option.splits)
  with Cons.prems(1) obtain succ where
    r: "replicateWrite net c1 rest key value vc now = Some (succ, c')"
    and s: "successNodes = (if ok then n # succ else succ)"
    by (auto split: option.splits)
  from writeToNode_NodeID [OF w] have id: "NodeID c1 = NodeID c" .
  with Cons.prems(2) have "nid \<noteq> NodeID c1" by simp
  from Cons.IH [OF r this] remotePutWithRetry_NodeID [OF id]
  have ih: "nid \<in> set succ \<longleftrightarrow> nid \<in> set rest \<and> remotePutWithRetry net c nid key value vc"
    by simp
  show ?case
  proof (cases "n = nid")
    case True
    with w Cons.prems(2) have "ok = remotePutWithRetry net c nid key value vc"
      by (auto simp: writeToNode_def)
    with True s ih show ?thesis by auto
  next
    case False
    with s ih show ?thesis by auto
  qed
qed

lemma replicateWrite_distinct:
  "replicateWrite net c preference key value vc now = Some (successNodes, c')
     \<Longrightarrow> distinct preference \<Longrightarrow> distinct successNodes"
proof (induction preference arbitrary: c successNodes)
  case Nil
  then show ?case by simp
next
  case (Cons n rest)
  from Cons.prems(1) obtain ok c1 where w: "writeToNode net c n key value vc now = Some (ok, c1)"
    by (auto split: option.splits)
  with Cons.prems(1) obtain succ where
    r: "replicateWrite net c1 rest key value vc now = Some (succ, c')"
    and s: "successNodes = (if ok then n # succ else succ)"
    by (auto split: option.splits)
  from Cons.prems(2) have d: "distinct rest" and n: "n \<notin> set rest" by simp_all
  from replicateWrite_subset [OF r] n have "n \<notin> set succ" by auto
  with Cons.IH [OF r d] s show ?case by simp
qed

lemma writeToNode_remote_state:
  "writeToNode net c nid key value vc now = Some (ok, c') \<Longrightarrow> nid \<noteq> NodeID c \<Longrightarrow> c' = c"
  by (simp add: writeToNode_def)

lemma replicateWrite_local:
  assumes "replicateWrite net c preference key value vc now = Some (successNodes, c')"
    and "distinct preference"
  shows "NodeID c \<in> set successNodes \<longleftrightarrow>
           NodeID c \<in> set preference
           \<and> (\<exists>c1. localPut c key value vc now (storagePutOk net) = Some (True, c1))"
  using assms
proof (induction preference arbitrary: successNodes)
  case Nil
  then show ?case by simp
next
  case (Cons n rest)
  from Cons.prems(1) obtain ok c1 where w: "writeToNode net c n key value vc now = Some (ok, c1)"
    by (auto split: option.splits)
  with Cons.prems(1) obtain succ where
    r: "replicateWrite net c1 rest key value vc now = Some (succ, c')"
    and s: "successNodes = (if ok then n # succ else succ)"
    by (auto split: option.splits)
  from Cons.prems(2) have d: "distinct rest" and n: "n \<notin> set rest" by simp_all
  show ?case
  proof (cases "n = NodeID c")
    case True
    with w have l: "localPut c key value vc now (storagePutOk net) = Some (ok, c1)"
      by (simp add: writeToNode_def)
    from replicateWrite_subset [OF r] n True have "NodeID c \<notin> set succ" by auto
    with s True l show ?thesis by auto
  next
    case False
    with w have "c1 = c" by (auto dest: writeToNode_remote_state)
    with r have r': "replicateWrite net c rest key value vc now = Some (succ, c')" by simp
    from Cons.IH [OF r' d] s False show ?thesis by auto
  qed
qed

lemma updateLocalVectorClock_Some: "\<exists>v. updateLocalVectorClock c key = Some v"
  by (auto simp: updateLocalVectorClock_def Increment_def split: option.splits)

lemma Put_result:
  assumes "replicateWrite net c (fst (responsibleNodes net key)) key value
             (updateLocalVectorClock c key) now = Some (successNodes, c')"
  shows "fst (Put net c key value now) =
           (if int (length successNodes) < WriteQuorum c then Some InsufficientReplicasForWrite
            else None)"
  using assms by (simp add: Put_def Let_def split_beta)

text \<open>
  What \<^verbatim>\<open>Put\<close> counts. For a preference list that names no node twice, \<^verbatim>\<open>Put\<close> always gets
  from \<^verbatim>\<open>replicateWrite\<close> the replicas that acknowledged the write, each of them once: a
  remote node of the list acknowledges when one of the three attempts of \<^verbatim>\<open>remotePut\<close> gets
  status 200, and the coordinator, when it is in the list, when its \<^verbatim>\<open>localPut\<close> returns
  true. \<^verbatim>\<open>Put\<close> then returns the error "insufficient replicas for write quorum" if and only
  if the number of these replicas is less than \<open>W\<close>, and \<^verbatim>\<open>nil\<close> if and only if it is at least
  \<open>W\<close>.
\<close>

lemma Put_counts_distinct_replicas:
  assumes "distinct (fst (responsibleNodes net key))"
  shows "\<exists>successNodes c'.
     replicateWrite net c (fst (responsibleNodes net key)) key value
       (updateLocalVectorClock c key) now = Some (successNodes, c')
     \<and> distinct successNodes
     \<and> (\<forall>nid. nid \<noteq> NodeID c \<longrightarrow>
            (nid \<in> set successNodes \<longleftrightarrow>
               nid \<in> set (fst (responsibleNodes net key))
               \<and> remotePutWithRetry net c nid key value (updateLocalVectorClock c key)))
     \<and> (NodeID c \<in> set successNodes \<longleftrightarrow>
            NodeID c \<in> set (fst (responsibleNodes net key))
            \<and> (\<exists>c1. localPut c key value (updateLocalVectorClock c key) now (storagePutOk net)
                       = Some (True, c1)))
     \<and> (fst (Put net c key value now) = Some InsufficientReplicasForWrite
          \<longleftrightarrow> int (card (set successNodes)) < WriteQuorum c)
     \<and> (fst (Put net c key value now) = None
          \<longleftrightarrow> WriteQuorum c \<le> int (card (set successNodes)))"
proof -
  obtain v where v: "updateLocalVectorClock c key = Some v"
    using updateLocalVectorClock_Some by blast
  obtain successNodes c' where r:
    "replicateWrite net c (fst (responsibleNodes net key)) key value (Some v) now
       = Some (successNodes, c')"
    using replicateWrite_Some by blast
  with v have r': "replicateWrite net c (fst (responsibleNodes net key)) key value
      (updateLocalVectorClock c key) now = Some (successNodes, c')"
    by simp
  have remote: "\<forall>nid. nid \<noteq> NodeID c \<longrightarrow>
            (nid \<in> set successNodes \<longleftrightarrow>
               nid \<in> set (fst (responsibleNodes net key))
               \<and> remotePutWithRetry net c nid key value (updateLocalVectorClock c key))"
    using replicateWrite_remote [OF r'] by blast
  have local: "NodeID c \<in> set successNodes \<longleftrightarrow>
            NodeID c \<in> set (fst (responsibleNodes net key))
            \<and> (\<exists>c1. localPut c key value (updateLocalVectorClock c key) now (storagePutOk net)
                       = Some (True, c1))"
    by (rule replicateWrite_local [OF r' assms])
  have dist: "distinct successNodes"
    by (rule replicateWrite_distinct [OF r' assms])
  then have count: "card (set successNodes) = length successNodes"
    by (rule distinct_card)
  have res: "fst (Put net c key value now) =
      (if int (length successNodes) < WriteQuorum c then Some InsufficientReplicasForWrite
       else None)"
    by (rule Put_result [OF r'])
  have err: "fst (Put net c key value now) = Some InsufficientReplicasForWrite
          \<longleftrightarrow> int (card (set successNodes)) < WriteQuorum c"
    by (simp add: res count)
  have ok: "fst (Put net c key value now) = None
          \<longleftrightarrow> WriteQuorum c \<le> int (card (set successNodes))"
    by (simp add: res count)
  show ?thesis
  proof (intro exI conjI)
    show "replicateWrite net c (fst (responsibleNodes net key)) key value
        (updateLocalVectorClock c key) now = Some (successNodes, c')"
      by (rule r')
    show "distinct successNodes"
      by (rule dist)
    show "\<forall>nid. nid \<noteq> NodeID c \<longrightarrow>
            (nid \<in> set successNodes \<longleftrightarrow>
               nid \<in> set (fst (responsibleNodes net key))
               \<and> remotePutWithRetry net c nid key value (updateLocalVectorClock c key))"
      by (rule remote)
    show "NodeID c \<in> set successNodes \<longleftrightarrow>
            NodeID c \<in> set (fst (responsibleNodes net key))
            \<and> (\<exists>c1. localPut c key value (updateLocalVectorClock c key) now (storagePutOk net)
                       = Some (True, c1))"
      by (rule local)
    show "fst (Put net c key value now) = Some InsufficientReplicasForWrite
          \<longleftrightarrow> int (card (set successNodes)) < WriteQuorum c"
      by (rule err)
    show "fst (Put net c key value now) = None
          \<longleftrightarrow> WriteQuorum c \<le> int (card (set successNodes))"
      by (rule ok)
  qed
qed

text \<open>
  Claim C3. \<^verbatim>\<open>Put\<close> compares \<^verbatim>\<open>len(successNodes)\<close> with \<open>W\<close>, and \<^verbatim>\<open>successNodes\<close> has one entry for
  every entry of the preference list whose write was acknowledged. The preference list
  can name the coordinator twice: \<^verbatim>\<open>determineResponsibleNodes\<close> keeps a replacement out when
  it is in the list already, and does not look whether the node of a later slot has been
  taken as a replacement before. Ring \<open>nodeA\<close>, \<open>nodeB\<close>, \<open>nodeC\<close> with \<open>N = 2\<close> and \<open>W = 2\<close>,
  coordinator \<open>nodeB\<close>, the other two nodes not alive, a key whose primary node is \<open>nodeA\<close>:
  \<^verbatim>\<open>getResponsibleNodes\<close> replaces \<open>nodeA\<close> by \<open>nodeB\<close> and then lists \<open>nodeB\<close> for itself, both
  local writes return true, \<^verbatim>\<open>len(successNodes)\<close> is 2, and \<^verbatim>\<open>Put\<close> returns \<^verbatim>\<open>nil\<close> although
  one replica acknowledged the write and \<open>W\<close> is 2.
\<close>

theorem Put_counts_coordinator_twice:
  "(let c = \<lparr>NodeID = ''nodeB'', Replication = 2, ReadQuorum = 1, WriteQuorum = 2,
             Storage = Map.empty, Hints = []\<rparr>;
        view = \<lparr>viewPrimary = ''nodeA'', viewAllNodes = [''nodeA'', ''nodeB'', ''nodeC''],
                viewAlive = Some (\<lambda>nodeID. False)\<rparr>;
        net = \<lparr>responsibleNodes = (\<lambda>key. ([''nodeB'', ''nodeB''], [(''nodeA'', ''nodeB'')])),
               remoteGet = (\<lambda>nodeID key i. emptyValue),
               remotePut = (\<lambda>nodeID key value vc i. False),
               rangeOrder = (\<lambda>responses. responses), storagePutOk = True\<rparr>
    in getResponsibleNodes c (\<lambda>attempt. view) True = Some (responsibleNodes net ''k'')
       \<and> map_option fst (replicateWrite net c [''nodeB'', ''nodeB''] ''k'' (Some ''v'')
                         (updateLocalVectorClock c ''k'') 9) = Some [''nodeB'', ''nodeB'']
       \<and> card (set [''nodeB'', ''nodeB'']) = 1
       \<and> WriteQuorum c = 2
       \<and> fst (Put net c ''k'' (Some ''v'') 9) = None)"
proof -
  let ?c = "\<lparr>NodeID = ''nodeB'', Replication = 2, ReadQuorum = 1, WriteQuorum = 2,
             Storage = Map.empty, Hints = []\<rparr> :: string Coordinator"
  let ?view = "\<lparr>viewPrimary = ''nodeA'', viewAllNodes = [''nodeA'', ''nodeB'', ''nodeC''],
                viewAlive = Some (\<lambda>nodeID. False)\<rparr>"
  let ?net = "\<lparr>responsibleNodes = (\<lambda>key. ([''nodeB'', ''nodeB''], [(''nodeA'', ''nodeB'')])),
               remoteGet = (\<lambda>nodeID key i. emptyValue),
               remotePut = (\<lambda>nodeID key value vc i. False),
               rangeOrder = (\<lambda>responses. responses), storagePutOk = True\<rparr> :: string Network"
  have three: "[0..<3] = [0, 1, 2]" and two: "[0..<2] = [0, 1]"
    by (simp_all add: upt_conv_Cons)
  have idx: "primaryIndexOf [''nodeA'', ''nodeB'', ''nodeC''] ''nodeA'' = 0"
    by (simp add: primaryIndexOf_def three)
  have det: "determineResponsibleNodes ?c ?view True
               = Some ([''nodeB'', ''nodeB''], [(''nodeA'', ''nodeB'')])"
    by (simp add: determineResponsibleNodes_def idx two three isNodeAvailable_def go_rem_def
        int64_wrap_def Let_def)
  have nodes: "getResponsibleNodes ?c (\<lambda>attempt. ?view) True
                 = Some ([''nodeB'', ''nodeB''], [(''nodeA'', ''nodeB'')])"
    by (simp add: getResponsibleNodes_def det maxRetryAttempts_def three Let_def)
  have writes: "map_option fst (replicateWrite ?net ?c [''nodeB'', ''nodeB''] ''k'' (Some ''v'')
                         (updateLocalVectorClock ?c ''k'') 9) = Some [''nodeB'', ''nodeB'']"
    by (simp add: updateLocalVectorClock_def Increment_def NewVectorClock_def int64_wrap_def
        writeToNode_def localPut_def compareVectorClocks_def Let_def)
  then obtain c' where r: "replicateWrite ?net ?c (fst (responsibleNodes ?net ''k'')) ''k'' (Some ''v'')
                         (updateLocalVectorClock ?c ''k'') 9 = Some ([''nodeB'', ''nodeB''], c')"
    by auto
  have put: "fst (Put ?net ?c ''k'' (Some ''v'') 9) = None"
    using Put_result [OF r] by simp
  have one: "card (set [''nodeB'', ''nodeB'']) = 1"
    by simp
  from nodes writes one put show ?thesis
    by (simp only: Let_def) simp
qed

lemma Get_below_quorum:
  assumes "int (length (gatherResponses net c (fst (responsibleNodes net key)) key)) < ReadQuorum c"
  shows "Get net c key now =
           (if Value (localGet c key) \<noteq> None then
              (case formatResult (localGet c key) 0 of
                 None \<Rightarrow> (Inl NilPointerPanic, [])
               | Some r \<Rightarrow> (Inr r, []))
            else (Inl InsufficientReplicasForRead, []))"
  using assms by (simp add: Get_def Let_def)

text \<open>
  Claim C4. When fewer than \<open>R\<close> non-empty responses were gathered, \<^verbatim>\<open>Get\<close> returns the error
  "insufficient replicas for read quorum" if \<^verbatim>\<open>localGet\<close> finds no value for the key, and
  the local value with its clock (no conflicts listed) if it finds one. The clock of a
  local value is present in every value that the write paths store.
\<close>

theorem Get_degraded_read:
  assumes "int (length (gatherResponses net c (fst (responsibleNodes net key)) key)) < ReadQuorum c"
  shows "(Value (localGet c key) = None \<longrightarrow>
            fst (Get net c key now) = Inl InsufficientReplicasForRead)
       \<and> (\<forall>v vc. Value (localGet c key) = Some v \<and> VClock (localGet c key) = Some vc \<longrightarrow>
            fst (Get net c key now) =
              Inr \<lparr>res_value = Some v, res_vector_clock = Clock vc, res_conflicts = None\<rparr>)"
  by (simp add: Get_below_quorum [OF assms] formatResult_def)

lemma Value_emptyValue: "Value emptyValue = None"
  by (simp add: emptyValue_def)

lemma retry_attempts: "[0..<maxRetryAttempts] = [0, 1, 2]"
  by (simp add: maxRetryAttempts_def upt_conv_Cons)


text \<open>A degraded read of a key held locally, and a failed read of a key held nowhere.\<close>

theorem Get_degraded_read_witness:
  "(let c = \<lparr>NodeID = ''nodeA'', Replication = 3, ReadQuorum = 2, WriteQuorum = 2,
             Storage = [''k'' \<mapsto> StoredValue (Some ''v1'') (Some \<lparr>Clock = [''nodeA'' \<mapsto> 1]\<rparr>) [] 5],
             Hints = []\<rparr>;
        net = \<lparr>responsibleNodes = (\<lambda>key. ([''nodeA'', ''nodeB'', ''nodeC''], [])),
               remoteGet = (\<lambda>nodeID key i. emptyValue),
               remotePut = (\<lambda>nodeID key value vc i. False),
               rangeOrder = (\<lambda>responses. responses), storagePutOk = True\<rparr>
    in int (length (gatherResponses net c (fst (responsibleNodes net ''k'')) ''k'')) < ReadQuorum c
       \<and> Value (localGet c ''k'') = Some ''v1''
       \<and> fst (Get net c ''k'' 9) =
           Inr \<lparr>res_value = Some ''v1'', res_vector_clock = [''nodeA'' \<mapsto> 1],
                 res_conflicts = None\<rparr>
       \<and> int (length (gatherResponses net c (fst (responsibleNodes net ''j'')) ''j'')) < ReadQuorum c
       \<and> Value (localGet c ''j'') = None
       \<and> fst (Get net c ''j'' 9) = Inl InsufficientReplicasForRead)"
proof -
  let ?c = "\<lparr>NodeID = ''nodeA'', Replication = 3, ReadQuorum = 2, WriteQuorum = 2,
             Storage = [''k'' \<mapsto> StoredValue (Some ''v1'') (Some \<lparr>Clock = [''nodeA'' \<mapsto> 1]\<rparr>) [] 5],
             Hints = []\<rparr>"
  let ?net = "\<lparr>responsibleNodes = (\<lambda>key. ([''nodeA'', ''nodeB'', ''nodeC''], [])),
               remoteGet = (\<lambda>nodeID key i. emptyValue),
               remotePut = (\<lambda>nodeID key value vc i. False),
               rangeOrder = (\<lambda>responses. responses), storagePutOk = True\<rparr>
             :: string Network"
  have lk: "localGet ?c ''k'' = StoredValue (Some ''v1'') (Some \<lparr>Clock = [''nodeA'' \<mapsto> 1]\<rparr>) [] 5"
    by (simp add: localGet_def)
  have lj: "localGet ?c ''j'' = emptyValue"
    by (simp add: localGet_def)
  have rg: "\<And>nodeID key. remoteGetWithRetry ?net nodeID key = emptyValue"
    by (simp add: remoteGetWithRetry_def retry_attempts Value_emptyValue)
  have gk: "gatherResponses ?net ?c [''nodeA'', ''nodeB'', ''nodeC''] ''k''
              = [(''nodeA'', StoredValue (Some ''v1'') (Some \<lparr>Clock = [''nodeA'' \<mapsto> 1]\<rparr>) [] 5)]"
    by (simp add: gatherResponses_def retrieveValue_def lk rg Value_emptyValue)
  have gj: "gatherResponses ?net ?c [''nodeA'', ''nodeB'', ''nodeC''] ''j'' = []"
    by (simp add: gatherResponses_def retrieveValue_def lj rg Value_emptyValue)
  have qk: "int (length (gatherResponses ?net ?c (fst (responsibleNodes ?net ''k'')) ''k'')) < ReadQuorum ?c"
    by (simp add: gk)
  have qj: "int (length (gatherResponses ?net ?c (fst (responsibleNodes ?net ''j'')) ''j'')) < ReadQuorum ?c"
    by (simp add: gj)
  from Get_degraded_read [OF qk, of 9] lk
  have rk: "fst (Get ?net ?c ''k'' 9) =
           Inr \<lparr>res_value = Some ''v1'', res_vector_clock = [''nodeA'' \<mapsto> 1],
                 res_conflicts = None\<rparr>"
    by simp
  from Get_degraded_read [OF qj, of 9] lj
  have rj: "fst (Get ?net ?c ''j'' 9) = Inl InsufficientReplicasForRead"
    by (simp add: Value_emptyValue)
  from qk qj rk rj lk lj show ?thesis by (simp add: Let_def Value_emptyValue)
qed

lemma Get_repairs:
  "snd (Get net c key now) =
     (if int (length (gatherResponses net c (fst (responsibleNodes net key)) key)) < ReadQuorum c
      then []
      else performReadRepairs c (fst (responsibleNodes net key)) key
             (fst (resolveConflicts
                (map snd (rangeOrder net
                   (gatherResponses net c (fst (responsibleNodes net key)) key))) now)))"
  by (auto simp: Get_def Let_def split_beta split: option.splits)

lemma repairNode_carries:
  assumes "VClock latest = Some vc" and "\<forall>conflict \<in> set (Conflicts latest). VClock conflict \<noteq> None"
  shows "\<exists>r. repairNode nodeID key latest = Some r \<and> repair_target r = nodeID \<and> repair_key r = key
           \<and> repair_value r = Value latest \<and> repair_vector_clock r = Clock vc
           \<and> (case repair_conflicts r of
                 None \<Rightarrow> Conflicts latest = []
               | Some cs \<Rightarrow> map fst cs = map Value (Conflicts latest))"
  using assms by (auto simp: repairNode_def comp_def)

text \<open>
  Claim C5, as the code has it. A \<^verbatim>\<open>Get\<close> that gathers fewer than \<open>R\<close> responses starts no
  repair. Every other \<^verbatim>\<open>Get\<close> starts a repair for every node of the preference list other
  than the coordinator itself, whatever that node answered, and each request carries the
  reconciled value, its merged clock and its siblings.
\<close>

theorem Get_read_repair_targets:
  fixes net :: "'v Network" and c :: "'v Coordinator" and key :: string and now :: nat
  defines "preference \<equiv> fst (responsibleNodes net key)"
  defines "responses \<equiv> gatherResponses net c preference key"
  defines "latest \<equiv> fst (resolveConflicts (map snd (rangeOrder net responses)) now)"
  shows "(int (length responses) < ReadQuorum c \<longrightarrow> snd (Get net c key now) = [])
       \<and> (ReadQuorum c \<le> int (length responses) \<longrightarrow>
            snd (Get net c key now) =
              map (\<lambda>nodeID. repairNode nodeID key latest)
                (filter (\<lambda>nodeID. nodeID \<noteq> NodeID c) preference))
       \<and> (\<forall>vc. VClock latest = Some vc
                \<and> (\<forall>conflict \<in> set (Conflicts latest). VClock conflict \<noteq> None) \<longrightarrow>
            (\<forall>nodeID. \<exists>r. repairNode nodeID key latest = Some r
                \<and> repair_target r = nodeID \<and> repair_key r = key
                \<and> repair_value r = Value latest \<and> repair_vector_clock r = Clock vc
                \<and> (case repair_conflicts r of
                      None \<Rightarrow> Conflicts latest = []
                    | Some cs \<Rightarrow> map fst cs = map Value (Conflicts latest))))"
proof (intro conjI impI)
  assume "int (length responses) < ReadQuorum c"
  then show "snd (Get net c key now) = []"
    by (simp add: Get_repairs responses_def preference_def)
next
  assume "ReadQuorum c \<le> int (length responses)"
  then show "snd (Get net c key now) =
      map (\<lambda>nodeID. repairNode nodeID key latest) (filter (\<lambda>nodeID. nodeID \<noteq> NodeID c) preference)"
    by (simp add: Get_repairs performReadRepairs_def latest_def responses_def preference_def)
next
  show "\<forall>vc. VClock latest = Some vc
                \<and> (\<forall>conflict \<in> set (Conflicts latest). VClock conflict \<noteq> None) \<longrightarrow>
            (\<forall>nodeID. \<exists>r. repairNode nodeID key latest = Some r
                \<and> repair_target r = nodeID \<and> repair_key r = key
                \<and> repair_value r = Value latest \<and> repair_vector_clock r = Clock vc
                \<and> (case repair_conflicts r of
                      None \<Rightarrow> Conflicts latest = []
                    | Some cs \<Rightarrow> map fst cs = map Value (Conflicts latest)))"
    using repairNode_carries by blast
qed

text \<open>
  Repairs do not go only to stale replicas: here \<open>nodeB\<close> answers with the very version that
  the read returns, and still gets a repair request.
\<close>

theorem Get_repairs_fresh_replica:
  "(let sv = StoredValue (Some ''v1'') (Some \<lparr>Clock = [''nodeA'' \<mapsto> 1]\<rparr>) [] 5;
        c = \<lparr>NodeID = ''nodeA'', Replication = 2, ReadQuorum = 2, WriteQuorum = 1,
             Storage = [''k'' \<mapsto> sv], Hints = []\<rparr>;
        net = \<lparr>responsibleNodes = (\<lambda>key. ([''nodeA'', ''nodeB''], [])),
               remoteGet = (\<lambda>nodeID key i. sv),
               remotePut = (\<lambda>nodeID key value vc i. True),
               rangeOrder = (\<lambda>responses. responses), storagePutOk = True\<rparr>
    in retrieveValue net c ''nodeB'' ''k'' = sv
       \<and> fst (Get net c ''k'' 9) =
           Inr \<lparr>res_value = Some ''v1'', res_vector_clock = [''nodeA'' \<mapsto> 1],
                 res_conflicts = None\<rparr>
       \<and> snd (Get net c ''k'' 9) =
           [Some \<lparr>repair_target = ''nodeB'', repair_key = ''k'', repair_value = Some ''v1'',
                   repair_vector_clock = [''nodeA'' \<mapsto> 1], repair_timestamp = 5,
                   repair_conflicts = None\<rparr>])"
proof -
  let ?sv = "StoredValue (Some ''v1'') (Some \<lparr>Clock = [''nodeA'' \<mapsto> 1]\<rparr>) [] 5"
  let ?c = "\<lparr>NodeID = ''nodeA'', Replication = 2, ReadQuorum = 2, WriteQuorum = 1,
             Storage = [''k'' \<mapsto> ?sv], Hints = []\<rparr>"
  let ?net = "\<lparr>responsibleNodes = (\<lambda>key. ([''nodeA'', ''nodeB''], [])),
               remoteGet = (\<lambda>nodeID key i. ?sv),
               remotePut = (\<lambda>nodeID key value vc i. True),
               rangeOrder = (\<lambda>responses. responses), storagePutOk = True\<rparr>
             :: string Network"
  have lk: "localGet ?c ''k'' = ?sv" by (simp add: localGet_def)
  have rb: "retrieveValue ?net ?c ''nodeB'' ''k'' = ?sv"
    by (simp add: retrieveValue_def remoteGetWithRetry_def retry_attempts)
  have ra: "retrieveValue ?net ?c ''nodeA'' ''k'' = ?sv"
    by (simp add: retrieveValue_def lk)
  have g: "gatherResponses ?net ?c [''nodeA'', ''nodeB''] ''k'' = [(''nodeA'', ?sv), (''nodeB'', ?sv)]"
    by (simp add: gatherResponses_def ra rb)
  have cmp: "compareVectorClocks (Some \<lparr>Clock = [''nodeA'' \<mapsto> 1]\<rparr>) (Some \<lparr>Clock = [''nodeA'' \<mapsto> 1]\<rparr>) = ''older''"
    by (simp add: compareVectorClocks_def)
  have res: "resolveConflicts [?sv, ?sv] 9 = (?sv, 0)"
    by (simp add: resolveConflicts_def emptyValue_def cmp)
  have "Get ?net ?c ''k'' 9 =
          (Inr \<lparr>res_value = Some ''v1'', res_vector_clock = [''nodeA'' \<mapsto> 1], res_conflicts = None\<rparr>,
           [Some \<lparr>repair_target = ''nodeB'', repair_key = ''k'', repair_value = Some ''v1'',
                   repair_vector_clock = [''nodeA'' \<mapsto> 1], repair_timestamp = 5,
                   repair_conflicts = None\<rparr>])"
    by (simp add: Get_def g res formatResult_def performReadRepairs_def repairNode_def)
  with rb show ?thesis by (simp add: Let_def)
qed

text \<open>A read that repairs a stale and a silent replica, and a read below the quorum.\<close>

theorem Get_read_repair_targets_witness:
  "(let new = StoredValue (Some ''v2'') (Some \<lparr>Clock = [''nodeA'' \<mapsto> 2]\<rparr>) [] 7;
        old = StoredValue (Some ''v1'') (Some \<lparr>Clock = [''nodeA'' \<mapsto> 1]\<rparr>) [] 5;
        c = \<lparr>NodeID = ''nodeA'', Replication = 3, ReadQuorum = 2, WriteQuorum = 2,
             Storage = [''k'' \<mapsto> new], Hints = []\<rparr>;
        net = \<lparr>responsibleNodes = (\<lambda>key. ([''nodeA'', ''nodeB'', ''nodeC''], [])),
               remoteGet = (\<lambda>nodeID key i. if nodeID = ''nodeB'' \<and> key = ''k'' then old else emptyValue),
               remotePut = (\<lambda>nodeID key value vc i. True),
               rangeOrder = (\<lambda>responses. responses), storagePutOk = True\<rparr>
    in gatherResponses net c [''nodeA'', ''nodeB'', ''nodeC''] ''k'' = [(''nodeA'', new), (''nodeB'', old)]
       \<and> fst (resolveConflicts [new, old] 9) = new
       \<and> snd (Get net c ''k'' 9) =
           [Some \<lparr>repair_target = ''nodeB'', repair_key = ''k'', repair_value = Some ''v2'',
                   repair_vector_clock = [''nodeA'' \<mapsto> 2], repair_timestamp = 7,
                   repair_conflicts = None\<rparr>,
            Some \<lparr>repair_target = ''nodeC'', repair_key = ''k'', repair_value = Some ''v2'',
                   repair_vector_clock = [''nodeA'' \<mapsto> 2], repair_timestamp = 7,
                   repair_conflicts = None\<rparr>]
       \<and> gatherResponses net c [''nodeA'', ''nodeB'', ''nodeC''] ''j'' = []
       \<and> snd (Get net c ''j'' 9) = [])"
proof -
  let ?new = "StoredValue (Some ''v2'') (Some \<lparr>Clock = [''nodeA'' \<mapsto> 2]\<rparr>) [] 7"
  let ?old = "StoredValue (Some ''v1'') (Some \<lparr>Clock = [''nodeA'' \<mapsto> 1]\<rparr>) [] 5"
  let ?c = "\<lparr>NodeID = ''nodeA'', Replication = 3, ReadQuorum = 2, WriteQuorum = 2,
             Storage = [''k'' \<mapsto> ?new], Hints = []\<rparr>"
  let ?net = "\<lparr>responsibleNodes = (\<lambda>key. ([''nodeA'', ''nodeB'', ''nodeC''], [])),
               remoteGet = (\<lambda>nodeID key i. if nodeID = ''nodeB'' \<and> key = ''k'' then ?old else emptyValue),
               remotePut = (\<lambda>nodeID key value vc i. True),
               rangeOrder = (\<lambda>responses. responses), storagePutOk = True\<rparr>
             :: string Network"
  have lk: "localGet ?c ''k'' = ?new" by (simp add: localGet_def)
  have lj: "localGet ?c ''j'' = emptyValue" by (simp add: localGet_def)
  have rb: "remoteGetWithRetry ?net ''nodeB'' ''k'' = ?old"
    by (simp add: remoteGetWithRetry_def retry_attempts)
  have rc: "remoteGetWithRetry ?net ''nodeC'' ''k'' = emptyValue"
    by (simp add: remoteGetWithRetry_def retry_attempts Value_emptyValue)
  have rj: "\<And>nodeID. remoteGetWithRetry ?net nodeID ''j'' = emptyValue"
    by (simp add: remoteGetWithRetry_def retry_attempts Value_emptyValue)
  have gk: "gatherResponses ?net ?c [''nodeA'', ''nodeB'', ''nodeC''] ''k''
              = [(''nodeA'', ?new), (''nodeB'', ?old)]"
    by (simp add: gatherResponses_def retrieveValue_def lk rb rc Value_emptyValue)
  have gj: "gatherResponses ?net ?c [''nodeA'', ''nodeB'', ''nodeC''] ''j'' = []"
    by (simp add: gatherResponses_def retrieveValue_def lj rj Value_emptyValue)
  have cmp: "compareVectorClocks (Some \<lparr>Clock = [''nodeA'' \<mapsto> 2]\<rparr>) (Some \<lparr>Clock = [''nodeA'' \<mapsto> 1]\<rparr>) = ''older''"
    by (simp add: compareVectorClocks_def)
  have res: "fst (resolveConflicts [?new, ?old] 9) = ?new"
    by (simp add: resolveConflicts_def emptyValue_def cmp)
  have rep: "\<And>nodeID. repairNode nodeID ''k'' ?new =
      Some \<lparr>repair_target = nodeID, repair_key = ''k'', repair_value = Some ''v2'',
             repair_vector_clock = [''nodeA'' \<mapsto> 2], repair_timestamp = 7,
             repair_conflicts = None\<rparr>"
    by (simp add: repairNode_def)
  from Get_read_repair_targets [of ?net ?c "''k''" 9]
  have "snd (Get ?net ?c ''k'' 9) =
           [Some \<lparr>repair_target = ''nodeB'', repair_key = ''k'', repair_value = Some ''v2'',
                   repair_vector_clock = [''nodeA'' \<mapsto> 2], repair_timestamp = 7,
                   repair_conflicts = None\<rparr>,
            Some \<lparr>repair_target = ''nodeC'', repair_key = ''k'', repair_value = Some ''v2'',
                   repair_vector_clock = [''nodeA'' \<mapsto> 2], repair_timestamp = 7,
                   repair_conflicts = None\<rparr>]"
    by (simp add: gk res rep)
  moreover from Get_read_repair_targets [of ?net ?c "''j''" 9]
  have "snd (Get ?net ?c ''j'' 9) = []"
    by (simp add: gj)
  ultimately show ?thesis using gk gj res by (simp add: Let_def)
qed

section \<open>Reads served from the hint buffer\<close>

lemma find_Some_in_set: "find P xs = Some x \<Longrightarrow> x \<in> set xs \<and> P x"
  by (induction xs) (auto split: if_splits)

lemma find_None_iff_set: "find P xs = None \<longleftrightarrow> (\<forall>x \<in> set xs. \<not> P x)"
  by (induction xs) auto

lemma localGet_from_hints:
  assumes "Storage c key = None \<or> (\<exists>val. Storage c key = Some val \<and> Value val = None)"
    and "(targetNode, hints) \<in> set (Hints c)" and "hint \<in> set hints" and "Key hint = key"
  shows "\<exists>(target', hints') \<in> set (Hints c). \<exists>hint' \<in> set hints'.
           Key hint' = key
           \<and> localGet c key =
               StoredValue (HintValue hint') (HintClock hint') [] (HintTimestamp hint')"
proof -
  from assms(2,3) have "hint \<in> set (concat (map snd (Hints c)))" by force
  with assms(4) have "find (\<lambda>h. Key h = key) (concat (map snd (Hints c))) \<noteq> None"
    by (auto simp: find_None_iff_set)
  then obtain h' where f: "find (\<lambda>h. Key h = key) (concat (map snd (Hints c))) = Some h'"
    by blast
  from find_Some_in_set [OF f] have "h' \<in> set (concat (map snd (Hints c)))" and "Key h' = key"
    by simp_all
  then obtain t' hs' where "(t', hs') \<in> set (Hints c)" and "h' \<in> set hs'"
    by auto
  moreover from assms(1) f
  have "localGet c key = StoredValue (HintValue h') (HintClock h') [] (HintTimestamp h')"
    by (auto simp: localGet_def)
  ultimately show ?thesis using \<open>Key h' = key\<close> by blast
qed

text \<open>
  Claim C10. For a key absent from the local storage and carried by a buffered hint (for
  any target), \<^verbatim>\<open>localGet\<close> returns the value, clock and timestamp of a buffered hint with
  that key. \<^verbatim>\<open>GET /internal/kv/{key}\<close> then answers with them, and so does the degraded
  read of \<^verbatim>\<open>Get\<close> when fewer than \<open>R\<close> responses were gathered.
\<close>

theorem localGet_hint_fallback:
  assumes "Storage c key = None"
    and "(targetNode, hints) \<in> set (Hints c)" and "hint \<in> set hints" and "Key hint = key"
  shows "\<exists>(target', hints') \<in> set (Hints c). \<exists>hint' \<in> set hints'.
           Key hint' = key
           \<and> localGet c key =
               StoredValue (HintValue hint') (HintClock hint') [] (HintTimestamp hint')
           \<and> (\<forall>vc. HintClock hint' = Some vc \<longrightarrow>
                 InternalGetHandler c key =
                   Some \<lparr>resp_value = HintValue hint', resp_vector_clock = Clock vc,
                         resp_timestamp = HintTimestamp hint', resp_conflicts = None\<rparr>)
           \<and> (\<forall>v vc. HintValue hint' = Some v \<and> HintClock hint' = Some vc
                   \<and> int (length (gatherResponses net c (fst (responsibleNodes net key)) key))
                       < ReadQuorum c \<longrightarrow>
                 fst (Get net c key now) =
                   Inr \<lparr>res_value = Some v, res_vector_clock = Clock vc, res_conflicts = None\<rparr>)"
proof -
  from localGet_from_hints [OF _ assms(2,3,4)] assms(1)
  obtain t' hs' h' where in1: "(t', hs') \<in> set (Hints c)" and in2: "h' \<in> set hs'"
    and k: "Key h' = key"
    and lg: "localGet c key = StoredValue (HintValue h') (HintClock h') [] (HintTimestamp h')"
    by blast
  have a: "\<forall>vc. HintClock h' = Some vc \<longrightarrow>
                 InternalGetHandler c key =
                   Some \<lparr>resp_value = HintValue h', resp_vector_clock = Clock vc,
                         resp_timestamp = HintTimestamp h', resp_conflicts = None\<rparr>"
    by (simp add: InternalGetHandler_def lg)
  have b: "\<forall>v vc. HintValue h' = Some v \<and> HintClock h' = Some vc
                   \<and> int (length (gatherResponses net c (fst (responsibleNodes net key)) key))
                       < ReadQuorum c \<longrightarrow>
                 fst (Get net c key now) =
                   Inr \<lparr>res_value = Some v, res_vector_clock = Clock vc, res_conflicts = None\<rparr>"
    by (simp add: Get_below_quorum lg formatResult_def)
  from in1 in2 k lg a b show ?thesis by blast
qed

text \<open>A node that holds the key only as a hint for \<open>nodeC\<close>.\<close>

theorem localGet_hint_fallback_witness:
  "(let hint = \<lparr>Key = ''k'', HintValue = Some ''v1'', HintClock = Some \<lparr>Clock = [''nodeA'' \<mapsto> 1]\<rparr>,
                 TargetNode = ''nodeC'', HintTimestamp = 5, Attempts = 0\<rparr>;
        c = \<lparr>NodeID = ''nodeB'', Replication = 3, ReadQuorum = 2, WriteQuorum = 2,
             Storage = Map.empty, Hints = [(''nodeC'', [hint])]\<rparr>;
        net = \<lparr>responsibleNodes = (\<lambda>key. ([''nodeA'', ''nodeB'', ''nodeC''], [])),
               remoteGet = (\<lambda>nodeID key i. emptyValue),
               remotePut = (\<lambda>nodeID key value vc i. False),
               rangeOrder = (\<lambda>responses. responses), storagePutOk = True\<rparr>
    in Storage c ''k'' = None \<and> (''nodeC'', [hint]) \<in> set (Hints c) \<and> Key hint = ''k''
       \<and> localGet c ''k'' = StoredValue (Some ''v1'') (Some \<lparr>Clock = [''nodeA'' \<mapsto> 1]\<rparr>) [] 5
       \<and> InternalGetHandler c ''k'' =
           Some \<lparr>resp_value = Some ''v1'', resp_vector_clock = [''nodeA'' \<mapsto> 1],
                 resp_timestamp = 5, resp_conflicts = None\<rparr>
       \<and> int (length (gatherResponses net c (fst (responsibleNodes net ''k'')) ''k'')) < ReadQuorum c
       \<and> fst (Get net c ''k'' 9) =
           Inr \<lparr>res_value = Some ''v1'', res_vector_clock = [''nodeA'' \<mapsto> 1],
                 res_conflicts = None\<rparr>)"
proof -
  let ?hint = "\<lparr>Key = ''k'', HintValue = Some ''v1'', HintClock = Some \<lparr>Clock = [''nodeA'' \<mapsto> 1]\<rparr>,
                 TargetNode = ''nodeC'', HintTimestamp = 5, Attempts = 0\<rparr>"
  let ?c = "\<lparr>NodeID = ''nodeB'', Replication = 3, ReadQuorum = 2, WriteQuorum = 2,
             Storage = Map.empty, Hints = [(''nodeC'', [?hint])]\<rparr>"
  let ?net = "\<lparr>responsibleNodes = (\<lambda>key. ([''nodeA'', ''nodeB'', ''nodeC''], [])),
               remoteGet = (\<lambda>nodeID key i. emptyValue),
               remotePut = (\<lambda>nodeID key value vc i. False),
               rangeOrder = (\<lambda>responses. responses), storagePutOk = True\<rparr>
             :: string Network"
  have st: "Storage ?c ''k'' = None" by simp
  have mem: "(''nodeC'', [?hint]) \<in> set (Hints ?c)" by simp
  have hm: "?hint \<in> set [?hint]" by simp
  have k: "Key ?hint = ''k''" by simp
  have lg: "localGet ?c ''k'' = StoredValue (Some ''v1'') (Some \<lparr>Clock = [''nodeA'' \<mapsto> 1]\<rparr>) [] 5"
    by (simp add: localGet_def)
  have rg: "\<And>nodeID key. remoteGetWithRetry ?net nodeID key = emptyValue"
    by (simp add: remoteGetWithRetry_def retry_attempts Value_emptyValue)
  have g: "gatherResponses ?net ?c [''nodeA'', ''nodeB'', ''nodeC''] ''k''
             = [(''nodeB'', StoredValue (Some ''v1'') (Some \<lparr>Clock = [''nodeA'' \<mapsto> 1]\<rparr>) [] 5)]"
    by (simp add: gatherResponses_def retrieveValue_def lg rg Value_emptyValue)
  have q: "int (length (gatherResponses ?net ?c (fst (responsibleNodes ?net ''k'')) ''k'')) < ReadQuorum ?c"
    by (simp add: g)
  from localGet_hint_fallback [OF st mem hm k, of ?net 9] lg q
  have "InternalGetHandler ?c ''k'' =
           Some \<lparr>resp_value = Some ''v1'', resp_vector_clock = [''nodeA'' \<mapsto> 1],
                 resp_timestamp = 5, resp_conflicts = None\<rparr>"
    and "fst (Get ?net ?c ''k'' 9) =
           Inr \<lparr>res_value = Some ''v1'', res_vector_clock = [''nodeA'' \<mapsto> 1],
                 res_conflicts = None\<rparr>"
    by auto
  with st lg q show ?thesis by (simp add: Let_def)
qed

section \<open>The ring: lookups and repeated additions\<close>

lemma Search_loop_done: "\<not> i < j \<Longrightarrow> Search_loop f i j = i"
  by (subst Search_loop.simps) simp

lemma Search_loop_step:
  "i < j \<Longrightarrow> Search_loop f i j =
     (if \<not> f ((i + j) div 2) then Search_loop f ((i + j) div 2 + 1) j
      else Search_loop f i ((i + j) div 2))"
  by (subst Search_loop.simps) (simp add: Let_def)

lemma Search_loop_range: "i \<le> j \<Longrightarrow> i \<le> Search_loop f i j \<and> Search_loop f i j \<le> j"
proof (induction f i j rule: Search_loop.induct)
  case (1 f i j)
  show ?case
  proof (cases "i < j")
    case False
    with "1.prems" show ?thesis by (simp add: Search_loop_done)
  next
    case True
    define h where "h = (i + j) div 2"
    from True have h: "i \<le> h" "h < j" by (simp_all add: h_def)
    show ?thesis
    proof (cases "f h")
      case False
      with True have eq: "Search_loop f i j = Search_loop f (h + 1) j"
        by (simp add: Search_loop_step h_def)
      from "1.IH"(1) [OF True h_def False] h have
        "h + 1 \<le> Search_loop f (h + 1) j \<and> Search_loop f (h + 1) j \<le> j" by simp
      with eq h show ?thesis by simp
    next
      case fh: True
      with True have eq: "Search_loop f i j = Search_loop f i h"
        by (simp add: Search_loop_step h_def)
      from "1.IH"(2) [OF True h_def] fh h have
        "i \<le> Search_loop f i h \<and> Search_loop f i h \<le> h" by simp
      with eq h show ?thesis by simp
    qed
  qed
qed

lemma Search_loop_correct:
  assumes "i \<le> j" and "j \<le> n"
    and "\<forall>a b. a \<le> b \<and> b < n \<and> f a \<longrightarrow> f b"
    and "\<forall>k < i. \<not> f k" and "\<forall>k. j \<le> k \<and> k < n \<longrightarrow> f k"
  shows "(\<forall>k < Search_loop f i j. \<not> f k) \<and> (\<forall>k. Search_loop f i j \<le> k \<and> k < n \<longrightarrow> f k)"
  using assms
proof (induction f i j rule: Search_loop.induct)
  case (1 f i j)
  show ?case
  proof (cases "i < j")
    case False
    with "1.prems" show ?thesis by (simp add: Search_loop_done)
  next
    case True
    define h where "h = (i + j) div 2"
    from True have h: "i \<le> h" "h < j" by (simp_all add: h_def)
    with "1.prems" have hn: "h < n" by simp
    show ?thesis
    proof (cases "f h")
      case False
      with True have eq: "Search_loop f i j = Search_loop f (h + 1) j"
        by (simp add: Search_loop_step h_def)
      have below: "\<forall>k < h + 1. \<not> f k"
      proof (intro allI impI)
        fix k assume "k < h + 1"
        then have "k \<le> h" by simp
        with hn False "1.prems"(3) show "\<not> f k" by blast
      qed
      from "1.IH"(1) [OF True h_def False _ "1.prems"(2,3) below "1.prems"(5)] h eq
      show ?thesis by simp
    next
      case fh: True
      with True have eq: "Search_loop f i j = Search_loop f i h"
        by (simp add: Search_loop_step h_def)
      have above: "\<forall>k. h \<le> k \<and> k < n \<longrightarrow> f k"
        using fh "1.prems"(3) by blast
      from h "1.prems"(2) have "h \<le> n" by simp
      from "1.IH"(2) [OF True h_def _ h(1) this "1.prems"(3,4) above] fh eq
      show ?thesis by simp
    qed
  qed
qed

lemma sorted_first_is_Min:
  fixes xs :: "64 word list"
  assumes "sorted xs" and "xs \<noteq> []"
  shows "xs ! 0 = Min (set xs)"
proof -
  from assms obtain x rest where xs: "xs = x # rest" by (cases xs) auto
  with assms(1) have "\<forall>y \<in> set xs. x \<le> y" by auto
  with xs show ?thesis by (auto intro!: Min_eqI [symmetric])
qed

lemma GetNode_successor:
  assumes "sorted (virtualNodes c)" and "virtualNodes c \<noteq> []"
  shows "GetNode sha256 c key =
           Some (owner c (successor_token (virtualNodes c) (hashKey sha256 key)))"
proof -
  define vn where "vn = virtualNodes c"
  define hash where "hash = hashKey sha256 key"
  define f where "f = (\<lambda>i. hash \<le> vn ! i)"
  define r where "r = Search (length vn) f"
  from assms have srt: "sorted vn" and ne: "vn \<noteq> []" by (simp_all add: vn_def)
  have mono: "\<forall>a b. a \<le> b \<and> b < length vn \<and> f a \<longrightarrow> f b"
  proof (intro allI impI)
    fix a b assume "a \<le> b \<and> b < length vn \<and> f a"
    then have "vn ! a \<le> vn ! b" and "hash \<le> vn ! a"
      using srt by (auto simp: f_def sorted_iff_nth_mono)
    then show "f b" by (simp add: f_def)
  qed
  have range: "r \<le> length vn"
    using Search_loop_range [of 0 "length vn" f] by (simp add: r_def Search_def)
  have split: "(\<forall>k < r. \<not> f k) \<and> (\<forall>k. r \<le> k \<and> k < length vn \<longrightarrow> f k)"
    unfolding r_def Search_def
    by (rule Search_loop_correct [OF _ _ mono]) auto
  have get: "GetNode sha256 c key =
      (let idx = (if r = length vn then 0 else r)
       in if idx < length vn then Some (owner c (vn ! idx)) else None)"
    using ne by (simp add: GetNode_def vn_def hash_def f_def r_def Let_def)
  show ?thesis
  proof (cases "r = length vn")
    case True
    with split have "\<forall>k < length vn. \<not> hash \<le> vn ! k" by (simp add: f_def)
    then have none: "\<not> (\<exists>t \<in> set vn. hash \<le> t)" by (auto simp: in_set_conv_nth)
    from sorted_first_is_Min [OF srt ne] none
    have "successor_token vn hash = vn ! 0" by (simp add: successor_token_def)
    with True ne get show ?thesis by (simp add: vn_def hash_def)
  next
    case False
    with range have rlt: "r < length vn" by simp
    with split have fr: "hash \<le> vn ! r" by (simp add: f_def)
    have mem: "vn ! r \<in> {t \<in> set vn. hash \<le> t}" using rlt fr by simp
    have least: "\<And>t. t \<in> {t \<in> set vn. hash \<le> t} \<Longrightarrow> vn ! r \<le> t"
    proof -
      fix t assume "t \<in> {t \<in> set vn. hash \<le> t}"
      then obtain k where k: "k < length vn" "vn ! k = t" "hash \<le> vn ! k"
        by (auto simp: in_set_conv_nth)
      with split have "r \<le> k" by (metis f_def not_less)
      with k srt show "vn ! r \<le> t" by (auto simp: sorted_iff_nth_mono)
    qed
    have "Min {t \<in> set vn. hash \<le> t} = vn ! r"
      by (rule Min_eqI) (use mem least in auto)
    moreover from mem have "\<exists>t \<in> set vn. hash \<le> t" by blast
    ultimately have "successor_token vn hash = vn ! r" by (simp add: successor_token_def)
    with False rlt get show ?thesis by (simp add: vn_def hash_def)
  qed
qed

lemma GetNode_total: "\<exists>nodeID. GetNode sha256 c key = Some nodeID"
proof (cases "virtualNodes c = []")
  case True
  then show ?thesis by (simp add: GetNode_def)
next
  case False
  have "Search (length (virtualNodes c)) (\<lambda>i. hashKey sha256 key \<le> virtualNodes c ! i)
          \<le> length (virtualNodes c)"
    using Search_loop_range [of 0 "length (virtualNodes c)"] by (simp add: Search_def)
  with False show ?thesis by (auto simp: GetNode_def Let_def)
qed

lemma AddNode_fold:
  "fold (addVirtualNode sha256 nodeID) is c1
   = c1\<lparr>virtualNodes := virtualNodes c1 @ tokens_of sha256 nodeID is,
        nodeMap := (\<lambda>h. if h \<in> set (tokens_of sha256 nodeID is) then Some nodeID
                         else nodeMap c1 h)\<rparr>"
proof (induction "is" arbitrary: c1)
  case Nil
  show ?case by (simp add: tokens_of_def)
next
  case (Cons i "is")
  show ?case
    by (simp add: Cons.IH) (simp add: addVirtualNode_def Let_def tokens_of_def fun_eq_iff)
qed

lemma AddNode_fields:
  "virtualNodes (AddNode sha256 nodeID c) =
     sort (virtualNodes c @ tokens_of sha256 nodeID [0..<virtualNodeCount])"
  "nodeMap (AddNode sha256 nodeID c) =
     (\<lambda>h. if h \<in> set (tokens_of sha256 nodeID [0..<virtualNodeCount]) then Some nodeID
          else nodeMap c h)"
  "nodes (AddNode sha256 nodeID c) = (nodes c)(nodeID \<mapsto> True)"
  by (simp_all add: AddNode_def Let_def AddNode_fold fun_eq_iff)

lemma AddNode_sorted: "sorted (virtualNodes (AddNode sha256 nodeID c))"
  by (simp add: AddNode_fields)

lemma AddNode_length:
  "length (virtualNodes (AddNode sha256 nodeID c)) = length (virtualNodes c) + 256"
  by (simp add: AddNode_fields tokens_of_def virtualNodeCount_def)

lemma AddNode_nonempty: "virtualNodes (AddNode sha256 nodeID c) \<noteq> []"
  using AddNode_length [of sha256 nodeID c] by auto

lemma RemoveNode_loop_sorted:
  "sorted (acc @ xs) \<Longrightarrow> sorted (virtualNodes (RemoveNode_loop nodeID xs c acc))"
proof (induction xs arbitrary: c acc)
  case Nil
  then show ?case by simp
next
  case (Cons hash rest)
  from Cons.prems have keep: "sorted ((acc @ [hash]) @ rest)" by simp
  from Cons.prems have drop: "sorted (acc @ rest)"
    by (auto simp: sorted_append)
  show ?case
    using Cons.IH [OF keep] Cons.IH [OF drop] by simp
qed

lemma RemoveNode_sorted:
  "sorted (virtualNodes c) \<Longrightarrow> sorted (virtualNodes (RemoveNode nodeID c))"
  unfolding RemoveNode_def by (rule RemoveNode_loop_sorted) simp

lemma ring_reachable_sorted: "ring_reachable sha256 c \<Longrightarrow> sorted (virtualNodes c)"
  by (induction rule: ring_reachable.induct)
    (simp_all add: NewConsistentHashRing_def AddNode_sorted RemoveNode_sorted)

lemma AddNode_owns_tokens: "owns_tokens sha256 (AddNode sha256 nodeID c) nodeID"
  by (auto simp: owns_tokens_def AddNode_fields tokens_of_def)

lemma tokens_subset:
  assumes "owns_tokens sha256 c nodeID"
  shows "set (tokens_of sha256 nodeID [0..<virtualNodeCount]) \<subseteq> set (virtualNodes c)"
  using assms by (auto simp: owns_tokens_def tokens_of_def)

lemma AddNode_again:
  assumes "sorted (virtualNodes c)" and "nodes c nodeID = Some True"
    and "owns_tokens sha256 c nodeID"
  shows "nodes (AddNode sha256 nodeID c) = nodes c"
    and "nodeMap (AddNode sha256 nodeID c) = nodeMap c"
    and "set (virtualNodes (AddNode sha256 nodeID c)) = set (virtualNodes c)"
    and "GetNode sha256 (AddNode sha256 nodeID c) key = GetNode sha256 c key"
proof -
  show n: "nodes (AddNode sha256 nodeID c) = nodes c"
    using assms(2) by (auto simp: AddNode_fields fun_eq_iff)
  show m: "nodeMap (AddNode sha256 nodeID c) = nodeMap c"
    using assms(3) by (auto simp: AddNode_fields fun_eq_iff owns_tokens_def tokens_of_def)
  show s: "set (virtualNodes (AddNode sha256 nodeID c)) = set (virtualNodes c)"
    using tokens_subset [OF assms(3)] by (auto simp: AddNode_fields)
  from assms(3) have "hashKey sha256 (virtualKey nodeID 0) \<in> set (virtualNodes c)"
    by (simp add: owns_tokens_def virtualNodeCount_def)
  then have ne: "virtualNodes c \<noteq> []" by auto
  have "successor_token (virtualNodes (AddNode sha256 nodeID c)) (hashKey sha256 key)
          = successor_token (virtualNodes c) (hashKey sha256 key)"
    by (simp add: successor_token_def s)
  moreover have "\<And>t. owner (AddNode sha256 nodeID c) t = owner c t"
    by (simp add: owner_def m)
  moreover have "GetNode sha256 (AddNode sha256 nodeID c) key =
      Some (owner (AddNode sha256 nodeID c)
        (successor_token (virtualNodes (AddNode sha256 nodeID c)) (hashKey sha256 key)))"
    by (rule GetNode_successor [OF AddNode_sorted AddNode_nonempty])
  moreover have "GetNode sha256 c key =
      Some (owner c (successor_token (virtualNodes c) (hashKey sha256 key)))"
    by (rule GetNode_successor [OF assms(1) ne])
  ultimately show "GetNode sha256 (AddNode sha256 nodeID c) key = GetNode sha256 c key"
    by simp
qed










section \<open>The ring: removals\<close>

lemma owner_nodes_update [simp]: "owner (c\<lparr>nodes := ns\<rparr>) = owner c"
  by (simp add: owner_def fun_eq_iff)












text \<open>The rings that \<^verbatim>\<open>main\<close> builds, by \<^verbatim>\<open>AddNode\<close> alone, are among them.\<close>

lemma fold_AddNode_maintained:
  "ring_maintained sha256 (fold (AddNode sha256) ids NewConsistentHashRing)"
  by (induction ids rule: rev_induct) (simp_all add: ring_maintained.new ring_maintained.add)




section \<open>The ring: what a lookup returns, and a node added twice\<close>

lemma fold_AddNode_sorted:
  "sorted (virtualNodes c) \<Longrightarrow> sorted (virtualNodes (fold (AddNode sha256) ids c))"
  by (induction ids rule: rev_induct) (simp_all add: AddNode_sorted)

lemma fold_AddNode_same_ring:
  assumes "nodes a = nodes b" and "nodeMap a = nodeMap b"
    and "set (virtualNodes a) = set (virtualNodes b)"
  shows "nodes (fold (AddNode sha256) ids a) = nodes (fold (AddNode sha256) ids b)
       \<and> nodeMap (fold (AddNode sha256) ids a) = nodeMap (fold (AddNode sha256) ids b)
       \<and> set (virtualNodes (fold (AddNode sha256) ids a))
           = set (virtualNodes (fold (AddNode sha256) ids b))"
  using assms by (induction ids rule: rev_induct) (auto simp: AddNode_fields)

lemma GetNode_same_ring:
  assumes "sorted (virtualNodes a)" and "sorted (virtualNodes b)"
    and "nodeMap a = nodeMap b" and "set (virtualNodes a) = set (virtualNodes b)"
  shows "GetNode sha256 a key = GetNode sha256 b key"
proof (cases "virtualNodes a = []")
  case True
  with assms(4) have "virtualNodes b = []" by simp
  with True show ?thesis by (simp add: GetNode_def)
next
  case False
  with assms(4) have ne: "virtualNodes b \<noteq> []" by auto
  have "successor_token (virtualNodes a) (hashKey sha256 key)
          = successor_token (virtualNodes b) (hashKey sha256 key)"
    by (simp add: successor_token_def assms(4))
  moreover have "\<And>t. owner a t = owner b t"
    by (simp add: owner_def assms(3))
  moreover have "GetNode sha256 a key =
      Some (owner a (successor_token (virtualNodes a) (hashKey sha256 key)))"
    by (rule GetNode_successor [OF assms(1) False])
  moreover have "GetNode sha256 b key =
      Some (owner b (successor_token (virtualNodes b) (hashKey sha256 key)))"
    by (rule GetNode_successor [OF assms(2) ne])
  ultimately show ?thesis by simp
qed




text \<open>
  Claim C7, amended. \<^verbatim>\<open>AddNode\<close> for a node that is a member already and still owns its 256
  tokens leaves the node set, the token-to-node map and the set of tokens as they were,
  and every \<^verbatim>\<open>GetNode\<close> on the ring after the call, also after any further \<^verbatim>\<open>AddNode\<close> calls
  \<open>ids\<close>, returns what it returns without the call; but the call makes the token slice
  longer by 256: every token of the node is appended once more.
\<close>

theorem AddNode_present_node:
  assumes "ring_reachable sha256 c" and "nodes c nodeID = Some True"
    and "owns_tokens sha256 c nodeID"
  shows "nodes (AddNode sha256 nodeID c) = nodes c
       \<and> nodeMap (AddNode sha256 nodeID c) = nodeMap c
       \<and> set (virtualNodes (AddNode sha256 nodeID c)) = set (virtualNodes c)
       \<and> (\<forall>ids key. GetNode sha256 (fold (AddNode sha256) ids (AddNode sha256 nodeID c)) key
                      = GetNode sha256 (fold (AddNode sha256) ids c) key)
       \<and> length (virtualNodes (AddNode sha256 nodeID c))
           = length (virtualNodes c) + virtualNodeCount"
proof -
  have srt: "sorted (virtualNodes c)"
    by (rule ring_reachable_sorted [OF assms(1)])
  note same = AddNode_again(1-3) [OF srt assms(2,3)]
  have later: "GetNode sha256 (fold (AddNode sha256) ids (AddNode sha256 nodeID c)) key
                 = GetNode sha256 (fold (AddNode sha256) ids c) key" for ids key
  proof -
    from fold_AddNode_same_ring [OF same, of sha256 ids]
    have m: "nodeMap (fold (AddNode sha256) ids (AddNode sha256 nodeID c))
               = nodeMap (fold (AddNode sha256) ids c)"
      and s: "set (virtualNodes (fold (AddNode sha256) ids (AddNode sha256 nodeID c)))
               = set (virtualNodes (fold (AddNode sha256) ids c))"
      by simp_all
    show ?thesis
      by (rule GetNode_same_ring [OF fold_AddNode_sorted [OF AddNode_sorted]
            fold_AddNode_sorted [OF srt] m s])
  qed
  from same later AddNode_length [of sha256 nodeID c] show ?thesis
    by (simp add: virtualNodeCount_def)
qed

text \<open>
  The token slice does not stay the same: after \<^verbatim>\<open>AddNode("nodeA")\<close> on the empty ring it holds
  256 tokens, after the second \<^verbatim>\<open>AddNode("nodeA")\<close> it holds 512.
\<close>

theorem AddNode_twice_duplicates_tokens:
  "\<forall>sha256.
     nodes (AddNode sha256 ''nodeA'' NewConsistentHashRing) ''nodeA'' = Some True
     \<and> length (virtualNodes (AddNode sha256 ''nodeA'' NewConsistentHashRing)) = 256
     \<and> length (virtualNodes (AddNode sha256 ''nodeA''
                 (AddNode sha256 ''nodeA'' NewConsistentHashRing))) = 512
     \<and> virtualNodes (AddNode sha256 ''nodeA'' (AddNode sha256 ''nodeA'' NewConsistentHashRing))
         \<noteq> virtualNodes (AddNode sha256 ''nodeA'' NewConsistentHashRing)"
proof
  fix sha256 :: "string \<Rightarrow> 8 word list"
  let ?c = "AddNode sha256 ''nodeA'' NewConsistentHashRing"
  have one: "length (virtualNodes ?c) = 256"
    by (simp add: AddNode_length NewConsistentHashRing_def)
  have two: "length (virtualNodes (AddNode sha256 ''nodeA'' ?c)) = 512"
    using AddNode_length [of sha256 "''nodeA''" ?c] one by linarith
  from one two have "virtualNodes (AddNode sha256 ''nodeA'' ?c) \<noteq> virtualNodes ?c"
    by auto
  moreover have "nodes ?c ''nodeA'' = Some True" by (simp add: AddNode_fields)
  ultimately show "nodes ?c ''nodeA'' = Some True
     \<and> length (virtualNodes ?c) = 256
     \<and> length (virtualNodes (AddNode sha256 ''nodeA'' ?c)) = 512
     \<and> virtualNodes (AddNode sha256 ''nodeA'' ?c) \<noteq> virtualNodes ?c"
    using one two by simp
qed

text \<open>
  The theorem at the ring that \<^verbatim>\<open>AddNode("nodeA")\<close> builds from the empty one, with a later
  \<^verbatim>\<open>AddNode("nodeB")\<close>.
\<close>

theorem AddNode_present_node_witness:
  "\<forall>sha256.
     ring_reachable sha256 (AddNode sha256 ''nodeA'' NewConsistentHashRing)
     \<and> nodes (AddNode sha256 ''nodeA'' NewConsistentHashRing) ''nodeA'' = Some True
     \<and> owns_tokens sha256 (AddNode sha256 ''nodeA'' NewConsistentHashRing) ''nodeA''
     \<and> nodeMap (AddNode sha256 ''nodeA'' (AddNode sha256 ''nodeA'' NewConsistentHashRing))
         = nodeMap (AddNode sha256 ''nodeA'' NewConsistentHashRing)
     \<and> GetNode sha256 (AddNode sha256 ''nodeA'' (AddNode sha256 ''nodeA'' NewConsistentHashRing)) ''mykey''
         = GetNode sha256 (AddNode sha256 ''nodeA'' NewConsistentHashRing) ''mykey''
     \<and> GetNode sha256
         (AddNode sha256 ''nodeB''
            (AddNode sha256 ''nodeA'' (AddNode sha256 ''nodeA'' NewConsistentHashRing))) ''mykey''
         = GetNode sha256
             (AddNode sha256 ''nodeB'' (AddNode sha256 ''nodeA'' NewConsistentHashRing)) ''mykey''
     \<and> length (virtualNodes (AddNode sha256 ''nodeA''
                 (AddNode sha256 ''nodeA'' NewConsistentHashRing))) = 512"
proof
  fix sha256 :: "string \<Rightarrow> 8 word list"
  let ?c = "AddNode sha256 ''nodeA'' NewConsistentHashRing"
  have r: "ring_reachable sha256 ?c"
    by (intro ring_reachable.add ring_reachable.new)
  have n: "nodes ?c ''nodeA'' = Some True" by (simp add: AddNode_fields)
  have o: "owns_tokens sha256 ?c ''nodeA''" by (rule AddNode_owns_tokens)
  have l: "length (virtualNodes ?c) = 256"
    by (simp add: AddNode_length NewConsistentHashRing_def)
  have l2: "length (virtualNodes (AddNode sha256 ''nodeA'' ?c)) = 512"
    using AddNode_length [of sha256 "''nodeA''" ?c] l by linarith
  note present = AddNode_present_node [OF r n o]
  from present have m: "nodeMap (AddNode sha256 ''nodeA'' ?c) = nodeMap ?c"
    by blast
  from present have later: "\<And>ids key.
      GetNode sha256 (fold (AddNode sha256) ids (AddNode sha256 ''nodeA'' ?c)) key
        = GetNode sha256 (fold (AddNode sha256) ids ?c) key"
    by blast
  from later [of "[]" "''mykey''"]
  have g0: "GetNode sha256 (AddNode sha256 ''nodeA'' ?c) ''mykey'' = GetNode sha256 ?c ''mykey''"
    by simp
  from later [of "[''nodeB'']" "''mykey''"]
  have g1: "GetNode sha256 (AddNode sha256 ''nodeB'' (AddNode sha256 ''nodeA'' ?c)) ''mykey''
              = GetNode sha256 (AddNode sha256 ''nodeB'' ?c) ''mykey''"
    by simp
  from r n o m g0 g1 l2
  show "ring_reachable sha256 ?c \<and> nodes ?c ''nodeA'' = Some True
     \<and> owns_tokens sha256 ?c ''nodeA''
     \<and> nodeMap (AddNode sha256 ''nodeA'' ?c) = nodeMap ?c
     \<and> GetNode sha256 (AddNode sha256 ''nodeA'' ?c) ''mykey'' = GetNode sha256 ?c ''mykey''
     \<and> GetNode sha256 (AddNode sha256 ''nodeB'' (AddNode sha256 ''nodeA'' ?c)) ''mykey''
         = GetNode sha256 (AddNode sha256 ''nodeB'' ?c) ''mykey''
     \<and> length (virtualNodes (AddNode sha256 ''nodeA'' ?c)) = 512"
    by (intro conjI)
qed

end
